theory Spec2Isabelle
  imports Main
begin

section \<open>Data model\<close>

text \<open>
  The development embeds \<^verbatim>\<open>GeminiResponseHandler\<close> and the two variants of
  \<^verbatim>\<open>GeminiAgent\<close>. JavaScript objects that are shared by reference (the handlers)
  live in an explicit heap indexed by a reference; everything the code sends to the chat
  transport, the completion service or the timer is appended to a trace, in the order in
  which the calls are issued.

  Modelling conventions:
  \<^item> \<^verbatim>\<open>undefined\<close> is \<open>None\<close>; a string is falsy exactly when it is empty.
  \<^item> In the steps of the agent the operations of the chat transport (\<^verbatim>\<open>sendMessage\<close>,
    \<^verbatim>\<open>sendEvent\<close>, \<^verbatim>\<open>partialUpdateMessage\<close>, \<^verbatim>\<open>disconnectUser\<close>) are taken as
    atomic: the code between two waits for the outside world (the reply of the completion
    service, the next fragment of the stream, a timer) runs as one step. The handler is
    modelled a second time with every awaited write as a wait (\<open>advance\<close>).
  \<^item> The three writes that \<^verbatim>\<open>processMessage\<close> of the queuing variant awaits ahead of
    its \<^verbatim>\<open>try\<close> block can be rejected by the transport (the input \<open>TransportFault\<close>).
    Every other write of the transport succeeds: a rejection inside a \<^verbatim>\<open>try\<close> block is
    caught there and is not modelled.
  \<^item> The continuation of an \<^verbatim>\<open>await\<close> on a promise of the code itself (the return of
    \<^verbatim>\<open>run\<close> into \<^verbatim>\<open>processMessage\<close>, of \<^verbatim>\<open>processMessage\<close> into the loop of
    \<^verbatim>\<open>handleMessage\<close>) runs in the same step: JavaScript runs such continuations as
    microtasks, before the event loop delivers the next event of the transport.
  \<^item> \<^verbatim>\<open>Date.now()\<close> is a parameter of every step.
  \<^item> The system instruction is a function of the writing context and the date; the trace
    records the writing context in its place.
\<close>

type_synonym hid = nat
type_synonym tid = nat

text \<open>A thrown value: its \<^verbatim>\<open>message\<close> property and the result of \<^verbatim>\<open>toString()\<close>.\<close>

record js_error =
  err_message :: "string option"
  err_toString :: string

text \<open>An entry of \<^verbatim>\<open>chatHistory\<close>: \<^verbatim>\<open>{ role, parts: [{ text }] }\<close>.\<close>

record turn =
  role :: string
  parts :: "string list"

text \<open>The message created by \<^verbatim>\<open>channel.sendMessage\<close>: its channel id and its id.\<close>

record message_response =
  cid :: string
  mid :: nat

text \<open>The message of an inbound event.\<close>

record chat_message =
  msg_text :: "string option"
  ai_generated :: bool
  writingTask :: "string option"

text \<open>An event of the chat client (\<^verbatim>\<open>message.new\<close> or \<^verbatim>\<open>ai_indicator.stop\<close>).\<close>

record event =
  user_id :: "string option"
  ev_message :: "chat_message option"
  message_id :: "nat option"

datatype ai_state = AI_STATE_THINKING | AI_STATE_GENERATING | AI_STATE_ERROR

datatype sent_event =
    IndicatorUpdate ai_state string nat
  | IndicatorClear string nat

datatype effect =
    SendMessage nat
  | SendEvent sent_event
  | PartialUpdateMessage nat string
  | GenerateContentStream "turn list" "string option"
  | SetTimeout int
  | DisconnectUser

text \<open>The fields of a \<^verbatim>\<open>GeminiResponseHandler\<close>.\<close>

record handler =
  message_text :: string
  is_done :: bool
  last_update_time :: int
  message :: message_response

text \<open>What a task remembers across a wait: the target message and the writing context.\<close>

record ctx =
  channelMessage :: message_response
  writingContext :: "string option"

text \<open>Where an invocation of \<^verbatim>\<open>handleMessage\<close> is suspended.\<close>

datatype pc =
    Idle
  | AwaitSpacing ctx
  | AwaitUpstream ctx nat
  | AwaitBackoff ctx nat
  | AwaitChunk ctx hid

text \<open>
  The state both agent variants share: the chat client (its user, its listeners), the
  transport (the channel id, the next message id, the trace), the heap of handlers, the
  agent's fields and the suspended tasks.
\<close>

record chat_state =
  client_user_id :: "string option"
  messageListener :: bool
  stopListeners :: "hid list"
  channel_cid :: string
  nextMessageId :: nat
  trace :: "effect list"
  heap :: "hid \<Rightarrow> handler"
  nextHandler :: hid
  genai :: bool
  lastInteractionTs :: int
  chatHistory :: "turn list"
  handlers :: "hid list"
  tasks :: "tid \<Rightarrow> pc"
  nextTask :: tid

text \<open>
  The queuing variant adds the processing flag, the call bookkeeping and the queue. The
  last field is not the agent's but the transport's: the write of \<^verbatim>\<open>processMessage\<close>
  ahead of its \<^verbatim>\<open>try\<close> block (the creation of the message, the thinking indicator, the
  generating indicator) that the transport will reject next, if any.
\<close>

datatype preamble_write = OnSendMessage | OnThinking | OnGenerating

record queuing_agent = chat_state +
  isProcessing :: bool
  lastApiCallTs :: int
  apiCallCount :: nat
  messageQueue :: "event list"
  pendingFault :: "preamble_write option"

section \<open>GeminiResponseHandler\<close>

definition emit :: "effect \<Rightarrow> 'a chat_state_scheme \<Rightarrow> 'a chat_state_scheme" where
  "emit e s = s\<lparr>trace := trace s @ [e]\<rparr>"

definition upd_handler ::
  "hid \<Rightarrow> (handler \<Rightarrow> handler) \<Rightarrow> 'a chat_state_scheme \<Rightarrow> 'a chat_state_scheme" where
  "upd_handler h f s = s\<lparr>heap := (heap s)(h := f (heap s h))\<rparr>"

text \<open>\<^verbatim>\<open>removeHandler\<close> of the agent, the \<^verbatim>\<open>onDispose\<close> callback of every handler.\<close>

definition removeHandler :: "hid \<Rightarrow> 'a chat_state_scheme \<Rightarrow> 'a chat_state_scheme" where
  "removeHandler handlerToRemove s =
     s\<lparr>handlers := filter (\<lambda>handler. handler \<noteq> handlerToRemove) (handlers s)\<rparr>"

text \<open>The constructor: a fresh object, registered for \<^verbatim>\<open>ai_indicator.stop\<close>.\<close>

definition newHandler :: "message_response \<Rightarrow> 'a chat_state_scheme \<Rightarrow> 'a chat_state_scheme" where
  "newHandler m s =
     s\<lparr>heap := (heap s)(nextHandler s :=
           \<lparr>message_text = [], is_done = False, last_update_time = 0, message = m\<rparr>),
       nextHandler := Suc (nextHandler s),
       stopListeners := stopListeners s @ [nextHandler s]\<rparr>"

definition dispose :: "hid \<Rightarrow> 'a chat_state_scheme \<Rightarrow> 'a chat_state_scheme" where
  "dispose h s =
     (if is_done (heap s h) then s
      else
        let s1 = upd_handler h (\<lambda>x. x\<lparr>is_done := True\<rparr>) s;
            s2 = s1\<lparr>stopListeners := filter (\<lambda>l. l \<noteq> h) (stopListeners s1)\<rparr>
        in removeHandler h s2)"

definition handleStopGenerating ::
  "hid \<Rightarrow> event \<Rightarrow> 'a chat_state_scheme \<Rightarrow> 'a chat_state_scheme" where
  "handleStopGenerating h ev s =
     (if is_done (heap s h) \<or> message_id ev \<noteq> Some (mid (message (heap s h))) then s
      else
        let s1 = upd_handler h (\<lambda>x. x\<lparr>is_done := True\<rparr>) s;
            s2 = (if message_text (heap s1 h) \<noteq> []
                  then emit (PartialUpdateMessage (mid (message (heap s1 h)))
                               (message_text (heap s1 h))) s1
                  else s1);
            s3 = emit (SendEvent (IndicatorClear (cid (message (heap s2 h)))
                                    (mid (message (heap s2 h))))) s2
        in dispose h s3)"

definition handleError ::
  "hid \<Rightarrow> js_error \<Rightarrow> 'a chat_state_scheme \<Rightarrow> 'a chat_state_scheme" where
  "handleError h err s =
     (if is_done (heap s h) then s
      else
        let s1 = emit (SendEvent (IndicatorUpdate AI_STATE_ERROR (cid (message (heap s h)))
                                    (mid (message (heap s h))))) s;
            s2 = emit (PartialUpdateMessage (mid (message (heap s1 h)))
                         (if err_toString err \<noteq> [] then err_toString err
                          else ''Error generating the message'')) s1
        in dispose h s2)"

text \<open>
  The body of the \<^verbatim>\<open>for await\<close> loop of \<^verbatim>\<open>run\<close> after the \<^verbatim>\<open>is_done\<close> test, for a
  chunk whose \<^verbatim>\<open>text\<close> is \<open>chunk_text\<close>, read at time \<open>now\<close>.
\<close>

definition run_chunk ::
  "hid \<Rightarrow> string option \<Rightarrow> int \<Rightarrow> 'a chat_state_scheme \<Rightarrow> 'a chat_state_scheme" where
  "run_chunk h chunk_text now s =
     (case chunk_text of
        None \<Rightarrow> s
      | Some t \<Rightarrow>
          if t = [] then s
          else
            let s1 = upd_handler h (\<lambda>x. x\<lparr>message_text := message_text x @ t\<rparr>) s
            in if now - last_update_time (heap s1 h) > 1000
               then upd_handler h (\<lambda>x. x\<lparr>last_update_time := now\<rparr>)
                      (emit (PartialUpdateMessage (mid (message (heap s1 h)))
                               (message_text (heap s1 h))) s1)
               else s1)"

text \<open>
  The code of \<^verbatim>\<open>run\<close> after the loop (reached when the stream is exhausted and on
  \<^verbatim>\<open>break\<close>): the final update, the returned text, the \<^verbatim>\<open>finally\<close> block.
  A result \<open>Inr\<close> is a fulfilled promise, \<open>Inl\<close> a rejected one.
\<close>

definition run_after_loop ::
  "hid \<Rightarrow> 'a chat_state_scheme \<Rightarrow> (js_error + string) \<times> 'a chat_state_scheme" where
  "run_after_loop h s =
     (let s1 = (if \<not> is_done (heap s h)
                then emit (SendEvent (IndicatorClear (cid (message (heap s h)))
                                        (mid (message (heap s h)))))
                       (emit (PartialUpdateMessage (mid (message (heap s h)))
                                (message_text (heap s h))) s)
                else s)
      in (Inr (message_text (heap s1 h)), dispose h s1))"

text \<open>The \<^verbatim>\<open>catch\<close> block of \<^verbatim>\<open>run\<close>, followed by the \<^verbatim>\<open>finally\<close> block.\<close>

definition run_catch ::
  "hid \<Rightarrow> js_error \<Rightarrow> 'a chat_state_scheme \<Rightarrow> (js_error + string) \<times> 'a chat_state_scheme" where
  "run_catch h err s =
     (let s1 = handleError h err s
      in (Inr (message_text (heap s1 h)), dispose h s1))"

text \<open>
  The loop of \<^verbatim>\<open>run\<close> over a stream that delivers the chunks \<open>cs\<close> (each with the time
  at which it is read) and then ends, and \<^verbatim>\<open>run\<close> as a whole on such a stream.
\<close>

fun run_loop ::
  "hid \<Rightarrow> (string option \<times> int) list \<Rightarrow> 'a chat_state_scheme \<Rightarrow> 'a chat_state_scheme" where
  "run_loop h [] s = s"
| "run_loop h ((chunk_text, now) # cs) s =
     (if is_done (heap s h) then s else run_loop h cs (run_chunk h chunk_text now s))"

definition run ::
  "hid \<Rightarrow> (string option \<times> int) list \<Rightarrow> 'a chat_state_scheme
     \<Rightarrow> (js_error + string) \<times> 'a chat_state_scheme" where
  "run h cs s = run_after_loop h (run_loop h cs s)"

text \<open>The times at which the loop of \<^verbatim>\<open>run\<close> writes to the message.\<close>

fun flushTimes ::
  "hid \<Rightarrow> (string option \<times> int) list \<Rightarrow> 'a chat_state_scheme \<Rightarrow> int list" where
  "flushTimes h [] s = []"
| "flushTimes h ((chunk_text, now) # cs) s =
     (if is_done (heap s h) then []
      else (if trace (run_chunk h chunk_text now s) \<noteq> trace s then [now] else [])
             @ flushTimes h cs (run_chunk h chunk_text now s))"

text \<open>A list of times that starts more than 1000 ms after \<open>l\<close> and whose neighbours are
  more than 1000 ms apart.\<close>

fun gapped :: "int \<Rightarrow> int list \<Rightarrow> bool" where
  "gapped l [] = True"
| "gapped l (t # ts) = (t - l > 1000 \<and> gapped t ts)"

text \<open>The text of a chunk, empty when the chunk has none.\<close>

definition chunkText :: "string option \<times> int \<Rightarrow> string" where
  "chunkText c = (case fst c of None \<Rightarrow> [] | Some t \<Rightarrow> t)"

text \<open>
  The places at which control enters a handler: a call of \<^verbatim>\<open>dispose\<close> (by the agent),
  the stop listener, \<^verbatim>\<open>handleError\<close>, and \<^verbatim>\<open>run\<close> resuming from its wait for the
  stream with a chunk, with the end of the stream or with an exception. \<open>enter\<close> runs
  one entry to its end, the awaited writes included, with no other entry in between;
  \<open>advance\<close> below suspends at each awaited write.
\<close>

datatype entry =
    CallDispose
  | CallHandleStopGenerating event
  | CallHandleError js_error
  | ResumeChunk "string option" int
  | ResumeEnd
  | ResumeThrow js_error

fun enter :: "hid \<Rightarrow> entry \<Rightarrow> 'a chat_state_scheme \<Rightarrow> 'a chat_state_scheme" where
  "enter h CallDispose s = dispose h s"
| "enter h (CallHandleStopGenerating ev) s = handleStopGenerating h ev s"
| "enter h (CallHandleError err) s = handleError h err s"
| "enter h (ResumeChunk chunk_text now) s =
     (if is_done (heap s h) then snd (run_after_loop h s) else run_chunk h chunk_text now s)"
| "enter h ResumeEnd s = snd (run_after_loop h s)"
| "enter h (ResumeThrow err) s = snd (run_catch h err s)"

text \<open>
  The entries that end a handler: all but a chunk, and but a stop signal for another
  message.
\<close>

fun terminal :: "entry \<Rightarrow> hid \<Rightarrow> 'a chat_state_scheme \<Rightarrow> bool" where
  "terminal (CallHandleStopGenerating ev) h s =
     (message_id ev = Some (mid (message (heap s h))))"
| "terminal (ResumeChunk chunk_text now) h s = False"
| "terminal e h s = True"

text \<open>
  The handler with its awaited writes as waits. \<^verbatim>\<open>run\<close> is suspended at the stream
  (\<^verbatim>\<open>for await\<close>), at the write in the loop (with the time read before it), at the final
  write, at the indicator-clear event after it, or in \<^verbatim>\<open>handleError\<close> at the
  indicator-error event and at the write of the error text; or it has returned.
  \<^verbatim>\<open>handleStopGenerating\<close>, which runs beside \<^verbatim>\<open>run\<close>, is suspended at its write or at
  its indicator-clear event. A write enters the trace when it is called.
\<close>

datatype run_at =
    AtStream
  | AtLoopWrite int
  | AtFinalWrite
  | AtFinalClear
  | AtErrorEvent js_error
  | AtErrorWrite
  | Returned string

datatype stop_at = NotStopping | AtStopWrite | AtStopClear

record 's streaming =
  runAt :: run_at
  stopAt :: stop_at
  world :: 's

text \<open>
  What reaches a handler: the stream yields a chunk (read at a time), ends or throws; the
  write that \<^verbatim>\<open>run\<close> awaits, or the one that \<^verbatim>\<open>handleStopGenerating\<close> awaits, settles; a
  stop signal arrives; the agent calls \<^verbatim>\<open>dispose\<close>.
\<close>

datatype signal =
    Yields "string option" int
  | Ends
  | Throws js_error
  | RunWriteSettles
  | StopWriteSettles
  | StopArrives event
  | DisposeCalled

definition startStreaming :: "'a chat_state_scheme \<Rightarrow> 'a chat_state_scheme streaming" where
  "startStreaming s = \<lparr>runAt = AtStream, stopAt = NotStopping, world = s\<rparr>"

text \<open>\<^verbatim>\<open>return this.message_text\<close> of \<^verbatim>\<open>run\<close>, with its \<^verbatim>\<open>finally\<close> block.\<close>

definition run_returns ::
  "hid \<Rightarrow> 'a chat_state_scheme streaming \<Rightarrow> 'a chat_state_scheme streaming" where
  "run_returns h r =
     r\<lparr>runAt := Returned (message_text (heap (world r) h)), world := dispose h (world r)\<rparr>"

fun advance ::
  "hid \<Rightarrow> signal \<Rightarrow> 'a chat_state_scheme streaming \<Rightarrow> 'a chat_state_scheme streaming" where
  "advance h (Yields chunk_text now) r =
     (case runAt r of
        AtStream \<Rightarrow>
          if is_done (heap (world r) h) then run_returns h r
          else
            (case chunk_text of
               None \<Rightarrow> r
             | Some t \<Rightarrow>
                 if t = [] then r
                 else
                   let s1 = upd_handler h (\<lambda>x. x\<lparr>message_text := message_text x @ t\<rparr>) (world r)
                   in if now - last_update_time (heap s1 h) > 1000
                      then r\<lparr>runAt := AtLoopWrite now,
                             world := emit (PartialUpdateMessage (mid (message (heap s1 h)))
                                              (message_text (heap s1 h))) s1\<rparr>
                      else r\<lparr>world := s1\<rparr>)
      | _ \<Rightarrow> r)"
| "advance h Ends r =
     (case runAt r of
        AtStream \<Rightarrow>
          if \<not> is_done (heap (world r) h)
          then r\<lparr>runAt := AtFinalWrite,
                 world := emit (PartialUpdateMessage (mid (message (heap (world r) h)))
                                  (message_text (heap (world r) h))) (world r)\<rparr>
          else run_returns h r
      | _ \<Rightarrow> r)"
| "advance h (Throws err) r =
     (case runAt r of
        AtStream \<Rightarrow>
          if is_done (heap (world r) h) then run_returns h r
          else r\<lparr>runAt := AtErrorEvent err,
                 world := emit (SendEvent (IndicatorUpdate AI_STATE_ERROR
                                   (cid (message (heap (world r) h)))
                                   (mid (message (heap (world r) h))))) (world r)\<rparr>
      | _ \<Rightarrow> r)"
| "advance h RunWriteSettles r =
     (case runAt r of
        AtLoopWrite now \<Rightarrow>
          r\<lparr>runAt := AtStream,
            world := upd_handler h (\<lambda>x. x\<lparr>last_update_time := now\<rparr>) (world r)\<rparr>
      | AtFinalWrite \<Rightarrow>
          r\<lparr>runAt := AtFinalClear,
            world := emit (SendEvent (IndicatorClear (cid (message (heap (world r) h)))
                                        (mid (message (heap (world r) h))))) (world r)\<rparr>
      | AtFinalClear \<Rightarrow> run_returns h r
      | AtErrorEvent err \<Rightarrow>
          r\<lparr>runAt := AtErrorWrite,
            world := emit (PartialUpdateMessage (mid (message (heap (world r) h)))
                             (if err_toString err \<noteq> [] then err_toString err
                              else ''Error generating the message'')) (world r)\<rparr>
      | AtErrorWrite \<Rightarrow> run_returns h (r\<lparr>world := dispose h (world r)\<rparr>)
      | _ \<Rightarrow> r)"
| "advance h (StopArrives ev) r =
     (if is_done (heap (world r) h) \<or> message_id ev \<noteq> Some (mid (message (heap (world r) h)))
      then r
      else
        let s1 = upd_handler h (\<lambda>x. x\<lparr>is_done := True\<rparr>) (world r)
        in if message_text (heap s1 h) \<noteq> []
           then r\<lparr>stopAt := AtStopWrite,
                  world := emit (PartialUpdateMessage (mid (message (heap s1 h)))
                                   (message_text (heap s1 h))) s1\<rparr>
           else r\<lparr>stopAt := AtStopClear,
                  world := emit (SendEvent (IndicatorClear (cid (message (heap s1 h)))
                                              (mid (message (heap s1 h))))) s1\<rparr>)"
| "advance h StopWriteSettles r =
     (case stopAt r of
        AtStopWrite \<Rightarrow>
          r\<lparr>stopAt := AtStopClear,
            world := emit (SendEvent (IndicatorClear (cid (message (heap (world r) h)))
                                        (mid (message (heap (world r) h))))) (world r)\<rparr>
      | AtStopClear \<Rightarrow> r\<lparr>stopAt := NotStopping, world := dispose h (world r)\<rparr>
      | NotStopping \<Rightarrow> r)"
| "advance h DisposeCalled r = r\<lparr>world := dispose h (world r)\<rparr>"

text \<open>Observations of a trace: what a step added, the message writes, the closing events.\<close>

definition new_effects :: "'a chat_state_scheme \<Rightarrow> 'a chat_state_scheme \<Rightarrow> effect list" where
  "new_effects s s' = drop (length (trace s)) (trace s')"

fun is_write :: "effect \<Rightarrow> bool" where
  "is_write (PartialUpdateMessage m t) = True"
| "is_write e = False"

fun is_closing :: "effect \<Rightarrow> bool" where
  "is_closing (SendEvent (IndicatorClear c m)) = True"
| "is_closing (SendEvent (IndicatorUpdate AI_STATE_ERROR c m)) = True"
| "is_closing e = False"

section \<open>GeminiAgent, queuing variant\<close>

text \<open>
  The agent after its construction at time \<open>t0\<close> and \<^verbatim>\<open>init\<close>, for the client user
  \<open>uid\<close> on the channel \<open>c\<close>. Message ids are handed out by the transport, counting
  from zero.
\<close>

definition initAgent :: "string option \<Rightarrow> string \<Rightarrow> int \<Rightarrow> queuing_agent" where
  "initAgent uid c t0 =
     \<lparr>client_user_id = uid, messageListener = True, stopListeners = [], channel_cid = c,
      nextMessageId = 0, trace = [],
      heap = (\<lambda>h. \<lparr>message_text = [], is_done = True, last_update_time = 0,
                     message = \<lparr>cid = c, mid = 0\<rparr>\<rparr>),
      nextHandler = 0, genai = True, lastInteractionTs = t0, chatHistory = [],
      handlers = [], tasks = (\<lambda>t. Idle), nextTask = 0,
      isProcessing = False, lastApiCallTs = 0, apiCallCount = 0, messageQueue = [],
      pendingFault = None\<rparr>"

text \<open>\<^verbatim>\<open>s.includes(sub)\<close>: \<open>sub\<close> occurs in \<open>s\<close> as a contiguous substring.\<close>

fun js_includes :: "string \<Rightarrow> string \<Rightarrow> bool" where
  "js_includes [] sub = (sub = [])"
| "js_includes (x # xs) sub = (take (length sub) (x # xs) = sub \<or> js_includes xs sub)"

text \<open>The \<^verbatim>\<open>catch\<close> clause of the retry loop: \<^verbatim>\<open>retryError?.message || String(retryError)\<close>,
  the classification, and the delay before the next attempt.\<close>

definition errorMessage :: "js_error \<Rightarrow> string" where
  "errorMessage retryError =
     (case err_message retryError of
        None \<Rightarrow> err_toString retryError
      | Some m \<Rightarrow> if m \<noteq> [] then m else err_toString retryError)"

definition isRateLimit :: "js_error \<Rightarrow> bool" where
  "isRateLimit retryError =
     (js_includes (errorMessage retryError) ''429''
      \<or> js_includes (errorMessage retryError) ''quota''
      \<or> js_includes (errorMessage retryError) ''Too Many Requests'')"

definition maxRetries :: nat where
  "maxRetries = 3"

definition retryDelay :: "nat \<Rightarrow> int" where
  "retryDelay attempt = 2 ^ (attempt + 1) * 1000"

text \<open>
  The retry loop of \<^verbatim>\<open>processMessage\<close> as a whole, against a completion service whose
  answer to the call of attempt \<open>k\<close> is \<open>gen k\<close> (\<open>Inl\<close> a thrown error). The result is
  what the loop leaves in \<^verbatim>\<open>response\<close> (\<open>None\<close> is \<^verbatim>\<open>undefined\<close>) or the error it
  throws, with the attempts made and the delays waited, in order.
\<close>

datatype retry_effect = Attempt nat | Wait int

function generateWithRetry ::
  "(nat \<Rightarrow> js_error + 'r) \<Rightarrow> nat \<Rightarrow> (js_error + 'r option) \<times> retry_effect list" where
  "generateWithRetry gen attempt =
     (if attempt \<le> maxRetries then
        (case gen attempt of
           Inr response \<Rightarrow> (Inr (Some response), [Attempt attempt])
         | Inl retryError \<Rightarrow>
             if isRateLimit retryError \<and> attempt < maxRetries
             then (let (r, log) = generateWithRetry gen (attempt + 1)
                   in (r, Attempt attempt # Wait (retryDelay attempt) # log))
             else (Inl retryError, [Attempt attempt]))
      else (Inr None, []))"
  by pat_completeness auto
termination
  by (relation "measure (\<lambda>(gen, attempt). Suc maxRetries - attempt)") auto

declare generateWithRetry.simps [simp del]

text \<open>Attempt \<open>k\<close> fails with a rate-limit error; what the loop settles with when
  attempt \<open>k\<close> is its last.\<close>

definition rateLimited :: "(nat \<Rightarrow> js_error + 'r) \<Rightarrow> nat \<Rightarrow> bool" where
  "rateLimited gen k = (case gen k of Inl e \<Rightarrow> isRateLimit e | Inr r \<Rightarrow> False)"

definition settled :: "(nat \<Rightarrow> js_error + 'r) \<Rightarrow> nat \<Rightarrow> js_error + 'r option" where
  "settled gen k = (case gen k of Inl e \<Rightarrow> Inl e | Inr r \<Rightarrow> Inr (Some r))"

text \<open>
  The text and the writing context of an inbound event. The non-null assertions of
  \<^verbatim>\<open>processMessage\<close> hold for every event that passed the filter of
  \<^verbatim>\<open>handleMessage\<close>; for any other event the text is taken to be empty.
\<close>

definition eventText :: "event \<Rightarrow> string" where
  "eventText e =
     (case ev_message e of
        None \<Rightarrow> []
      | Some m \<Rightarrow> (case msg_text m of None \<Rightarrow> [] | Some t \<Rightarrow> t))"

definition eventContext :: "event \<Rightarrow> string option" where
  "eventContext e =
     (case ev_message e of
        None \<Rightarrow> None
      | Some m \<Rightarrow>
          (case writingTask m of
             None \<Rightarrow> None
           | Some w \<Rightarrow> if w \<noteq> [] then Some (''Writing Task: '' @ w) else None))"

text \<open>
  The exception of \<^verbatim>\<open>for await\<close> over an \<^verbatim>\<open>undefined\<close> stream, which \<^verbatim>\<open>run\<close> would
  meet if the retry loop ended without a response. The wording of the message is the
  engine's; no claim depends on it.
\<close>

definition notIterable :: js_error where
  "notIterable =
     \<lparr>err_message = Some ''undefined is not async iterable'',
      err_toString = ''TypeError: undefined is not async iterable''\<rparr>"

text \<open>
  \<^verbatim>\<open>processMessage\<close> of task \<open>t\<close> up to its first wait, and the \<^verbatim>\<open>while\<close> loop of
  \<^verbatim>\<open>handleMessage\<close>, entered with the queue \<open>q\<close>. The first statement of
  \<^verbatim>\<open>processMessage\<close>, the return when \<^verbatim>\<open>genai\<close> is unset, is the test of \<^verbatim>\<open>genai\<close>
  in the loop (\<^verbatim>\<open>handleMessage\<close> has made the same test before its own call); past it
  \<^verbatim>\<open>processMessage\<close> reaches a wait, for the spacing timer or for the completion
  service, unless one of its first writes is rejected.
\<close>

definition attemptCall :: "ctx \<Rightarrow> nat \<Rightarrow> tid \<Rightarrow> queuing_agent \<Rightarrow> queuing_agent" where
  "attemptCall c attempt t s =
     (emit (GenerateContentStream (chatHistory s) (writingContext c)) s)
       \<lparr>tasks := (tasks s)(t := AwaitUpstream c attempt)\<rparr>"

text \<open>
  A write ahead of the \<^verbatim>\<open>try\<close> block is rejected: the exception leaves
  \<^verbatim>\<open>processMessage\<close>, whose \<^verbatim>\<open>finally\<close> block does not cover it, and then
  \<^verbatim>\<open>handleMessage\<close>, which ends without entering its loop. The rejected write leaves
  no entry in the trace.
\<close>

definition rejected :: "tid \<Rightarrow> queuing_agent \<Rightarrow> queuing_agent" where
  "rejected t s = s\<lparr>pendingFault := None, tasks := (tasks s)(t := Idle)\<rparr>"

definition startGenerating :: "int \<Rightarrow> ctx \<Rightarrow> tid \<Rightarrow> queuing_agent \<Rightarrow> queuing_agent" where
  "startGenerating now c t s =
     (if pendingFault s = Some OnGenerating then rejected t s
      else
        let s1 = emit (SendEvent (IndicatorUpdate AI_STATE_GENERATING
                           (cid (channelMessage c)) (mid (channelMessage c)))) s;
            s2 = s1\<lparr>apiCallCount := apiCallCount s1 + 1, lastApiCallTs := now\<rparr>
        in attemptCall c 0 t s2)"

definition processMessage :: "int \<Rightarrow> event \<Rightarrow> tid \<Rightarrow> queuing_agent \<Rightarrow> queuing_agent" where
  "processMessage now e t s =
     (let s1 = s\<lparr>isProcessing := True, lastInteractionTs := now\<rparr>;
          s2 = s1\<lparr>chatHistory := chatHistory s1 @ [\<lparr>role = ''user'', parts = [eventText e]\<rparr>]\<rparr>
      in if pendingFault s2 = Some OnSendMessage then rejected t s2
         else
           let m = \<lparr>cid = channel_cid s2, mid = nextMessageId s2\<rparr>;
               s3 = emit (SendMessage (mid m)) (s2\<lparr>nextMessageId := Suc (nextMessageId s2)\<rparr>)
           in if pendingFault s3 = Some OnThinking then rejected t s3
              else
                let s4 = emit (SendEvent (IndicatorUpdate AI_STATE_THINKING (cid m) (mid m))) s3;
                    c = \<lparr>channelMessage = m, writingContext = eventContext e\<rparr>;
                    timeSinceLastCall = now - lastApiCallTs s4
                in if timeSinceLastCall < 4000 \<and> lastApiCallTs s4 > 0
                   then (emit (SetTimeout (4000 - timeSinceLastCall)) s4)
                          \<lparr>tasks := (tasks s4)(t := AwaitSpacing c)\<rparr>
                   else startGenerating now c t s4)"

fun drainQueue :: "int \<Rightarrow> tid \<Rightarrow> event list \<Rightarrow> queuing_agent \<Rightarrow> queuing_agent" where
  "drainQueue now t [] s = s\<lparr>tasks := (tasks s)(t := Idle)\<rparr>"
| "drainQueue now t (nextEvent # q) s =
     (if \<not> genai s then drainQueue now t q (s\<lparr>messageQueue := q\<rparr>)
      else processMessage now nextEvent t (s\<lparr>messageQueue := q\<rparr>))"

text \<open>The \<^verbatim>\<open>finally\<close> block of \<^verbatim>\<open>processMessage\<close>, and the return into the loop of
  \<^verbatim>\<open>handleMessage\<close>.\<close>

definition processMessage_finally :: "int \<Rightarrow> tid \<Rightarrow> queuing_agent \<Rightarrow> queuing_agent" where
  "processMessage_finally now t s =
     (let s1 = s\<lparr>isProcessing := False\<rparr> in drainQueue now t (messageQueue s1) s1)"

text \<open>The outer \<^verbatim>\<open>catch\<close> block of \<^verbatim>\<open>processMessage\<close>.\<close>

definition processMessage_catch :: "ctx \<Rightarrow> queuing_agent \<Rightarrow> queuing_agent" where
  "processMessage_catch c s =
     emit (PartialUpdateMessage (mid (channelMessage c))
             ''Sorry, I encountered an error. Please try again.'')
       (emit (SendEvent (IndicatorUpdate AI_STATE_ERROR
                 (cid (channelMessage c)) (mid (channelMessage c)))) s)"

text \<open>The \<^verbatim>\<open>try\<close> block of \<^verbatim>\<open>processMessage\<close> from the point at which \<^verbatim>\<open>run\<close> has
  settled with \<open>r\<close>.\<close>

definition processMessage_afterRun ::
  "ctx \<Rightarrow> (js_error + string) \<times> queuing_agent \<Rightarrow> queuing_agent" where
  "processMessage_afterRun c rs =
     (case fst rs of
        Inr fullText \<Rightarrow>
          if fullText \<noteq> []
          then (snd rs)\<lparr>chatHistory := chatHistory (snd rs) @ [\<lparr>role = ''model'', parts = [fullText]\<rparr>]\<rparr>
          else snd rs
      | Inl error \<Rightarrow> processMessage_catch c (snd rs))"

text \<open>The handler is constructed and pushed, and \<^verbatim>\<open>run\<close> starts to wait for the stream.\<close>

definition startRun :: "ctx \<Rightarrow> tid \<Rightarrow> queuing_agent \<Rightarrow> queuing_agent" where
  "startRun c t s =
     (let handler = nextHandler s;
          s1 = newHandler (channelMessage c) s;
          s2 = s1\<lparr>handlers := handlers s1 @ [handler]\<rparr>
      in s2\<lparr>tasks := (tasks s2)(t := AwaitChunk c handler)\<rparr>)"

text \<open>The retry loop at its test, about to make the call of \<open>attempt\<close>.\<close>

definition retryLoop :: "int \<Rightarrow> ctx \<Rightarrow> nat \<Rightarrow> tid \<Rightarrow> queuing_agent \<Rightarrow> queuing_agent" where
  "retryLoop now c attempt t s =
     (if attempt \<le> maxRetries then attemptCall c attempt t s
      else
        let handler = nextHandler s;
            s1 = newHandler (channelMessage c) s;
            s2 = s1\<lparr>handlers := handlers s1 @ [handler]\<rparr>
        in processMessage_finally now t
             (processMessage_afterRun c (run_catch handler notIterable s2)))"

text \<open>The completion service answers the call of \<open>attempt\<close>.\<close>

definition onUpstreamReply ::
  "int \<Rightarrow> js_error + unit \<Rightarrow> ctx \<Rightarrow> nat \<Rightarrow> tid \<Rightarrow> queuing_agent \<Rightarrow> queuing_agent" where
  "onUpstreamReply now r c attempt t s =
     (case r of
        Inr response \<Rightarrow> startRun c t s
      | Inl retryError \<Rightarrow>
          if isRateLimit retryError \<and> attempt < maxRetries
          then (emit (SetTimeout (retryDelay attempt)) s)
                 \<lparr>tasks := (tasks s)(t := AwaitBackoff c attempt)\<rparr>
          else processMessage_finally now t (processMessage_catch c s))"

definition handleMessage :: "int \<Rightarrow> event \<Rightarrow> queuing_agent \<Rightarrow> queuing_agent" where
  "handleMessage now e s =
     (if \<not> genai s then s
      else if user_id e = client_user_id s then s
      else case ev_message e of
        None \<Rightarrow> s
      | Some m \<Rightarrow>
          if ai_generated m then s
          else case msg_text m of
            None \<Rightarrow> s
          | Some messageText \<Rightarrow>
              if messageText = [] then s
              else if isProcessing s then s\<lparr>messageQueue := messageQueue s @ [e]\<rparr>
              else processMessage now e (nextTask s) (s\<lparr>nextTask := Suc (nextTask s)\<rparr>))"

text \<open>\<^verbatim>\<open>dispose\<close> of the agent.\<close>

definition agentDispose :: "queuing_agent \<Rightarrow> queuing_agent" where
  "agentDispose s =
     (let s1 = emit DisconnectUser (s\<lparr>messageListener := False\<rparr>);
          s2 = fold dispose (handlers s1) s1
      in s2\<lparr>handlers := [], isProcessing := False, messageQueue := []\<rparr>)"

text \<open>
  What the outside world does to the agent: the chat client delivers an event, a timer
  of task \<open>t\<close> fires, the completion service answers the call of task \<open>t\<close>, or the stream
  that task \<open>t\<close> reads yields a chunk, ends or throws. An input that the addressed task
  does not wait for changes nothing. The last input is the transport failing: it will
  reject the named write of \<^verbatim>\<open>processMessage\<close> when that write is next made.
\<close>

datatype input =
    MessageNew event
  | IndicatorStop event
  | TimerFired tid
  | UpstreamReply tid "js_error + unit"
  | StreamChunk tid "string option"
  | StreamEnd tid
  | StreamThrow tid js_error
  | AgentDispose
  | TransportFault preamble_write

fun step :: "int \<Rightarrow> input \<Rightarrow> queuing_agent \<Rightarrow> queuing_agent" where
  "step now (MessageNew e) s = (if messageListener s then handleMessage now e s else s)"
| "step now (IndicatorStop e) s = fold (\<lambda>h. handleStopGenerating h e) (stopListeners s) s"
| "step now (TimerFired t) s =
     (case tasks s t of
        AwaitSpacing c \<Rightarrow> startGenerating now c t s
      | AwaitBackoff c attempt \<Rightarrow> retryLoop now c (attempt + 1) t s
      | _ \<Rightarrow> s)"
| "step now (UpstreamReply t r) s =
     (case tasks s t of
        AwaitUpstream c attempt \<Rightarrow> onUpstreamReply now r c attempt t s
      | _ \<Rightarrow> s)"
| "step now (StreamChunk t chunk_text) s =
     (case tasks s t of
        AwaitChunk c h \<Rightarrow>
          if is_done (heap s h)
          then processMessage_finally now t (processMessage_afterRun c (run_after_loop h s))
          else run_chunk h chunk_text now s
      | _ \<Rightarrow> s)"
| "step now (StreamEnd t) s =
     (case tasks s t of
        AwaitChunk c h \<Rightarrow>
          processMessage_finally now t (processMessage_afterRun c (run_after_loop h s))
      | _ \<Rightarrow> s)"
| "step now (StreamThrow t err) s =
     (case tasks s t of
        AwaitChunk c h \<Rightarrow>
          processMessage_finally now t (processMessage_afterRun c (run_catch h err s))
      | _ \<Rightarrow> s)"
| "step now AgentDispose s = agentDispose s"
| "step now (TransportFault w) s = s\<lparr>pendingFault := Some w\<rparr>"

text \<open>A run: the inputs in order, each with the time at which it is handled.\<close>

definition exec :: "(int \<times> input) list \<Rightarrow> queuing_agent \<Rightarrow> queuing_agent" where
  "exec ins s = fold (\<lambda>(now, i). step now i) ins s"

section \<open>GeminiAgent, variant without a queue\<close>

text \<open>
  The first variant of the agent has no processing flag, no call bookkeeping and no queue:
  its state is the shared state alone. \<^verbatim>\<open>handleMessage\<close> of task \<open>t\<close> runs from the
  filter to the first call of the completion service in one step. Rejected writes are
  modelled for the queuing variant only: here the input \<open>TransportFault\<close> changes nothing.
\<close>

definition attemptCall1 :: "ctx \<Rightarrow> nat \<Rightarrow> tid \<Rightarrow> chat_state \<Rightarrow> chat_state" where
  "attemptCall1 c attempt t s =
     (emit (GenerateContentStream (chatHistory s) (writingContext c)) s)
       \<lparr>tasks := (tasks s)(t := AwaitUpstream c attempt)\<rparr>"

definition handleMessage1 :: "int \<Rightarrow> event \<Rightarrow> chat_state \<Rightarrow> chat_state" where
  "handleMessage1 now e s =
     (if \<not> genai s then s
      else if user_id e = client_user_id s then s
      else case ev_message e of
        None \<Rightarrow> s
      | Some m \<Rightarrow>
          if ai_generated m then s
          else case msg_text m of
            None \<Rightarrow> s
          | Some messageText \<Rightarrow>
              if messageText = [] then s
              else
                let t = nextTask s;
                    s1 = s\<lparr>nextTask := Suc t, lastInteractionTs := now\<rparr>;
                    s2 = s1\<lparr>chatHistory := chatHistory s1 @ [\<lparr>role = ''user'', parts = [messageText]\<rparr>]\<rparr>;
                    cm = \<lparr>cid = channel_cid s2, mid = nextMessageId s2\<rparr>;
                    s3 = emit (SendMessage (mid cm)) (s2\<lparr>nextMessageId := Suc (nextMessageId s2)\<rparr>);
                    s4 = emit (SendEvent (IndicatorUpdate AI_STATE_THINKING (cid cm) (mid cm))) s3;
                    s5 = emit (SendEvent (IndicatorUpdate AI_STATE_GENERATING (cid cm) (mid cm))) s4
                in attemptCall1 \<lparr>channelMessage = cm, writingContext = eventContext e\<rparr> 0 t s5)"

text \<open>The \<^verbatim>\<open>catch\<close> block of \<^verbatim>\<open>handleMessage\<close>, and its \<^verbatim>\<open>try\<close> block from the point at
  which \<^verbatim>\<open>run\<close> has settled; either way \<^verbatim>\<open>handleMessage\<close> returns.\<close>

definition handleMessage1_catch :: "ctx \<Rightarrow> tid \<Rightarrow> chat_state \<Rightarrow> chat_state" where
  "handleMessage1_catch c t s =
     (emit (PartialUpdateMessage (mid (channelMessage c))
              ''Sorry, I encountered an error. Please try again.'')
        (emit (SendEvent (IndicatorUpdate AI_STATE_ERROR
                  (cid (channelMessage c)) (mid (channelMessage c)))) s))
       \<lparr>tasks := (tasks s)(t := Idle)\<rparr>"

definition handleMessage1_afterRun ::
  "ctx \<Rightarrow> tid \<Rightarrow> (js_error + string) \<times> chat_state \<Rightarrow> chat_state" where
  "handleMessage1_afterRun c t rs =
     (case fst rs of
        Inr fullText \<Rightarrow>
          (if fullText \<noteq> []
           then (snd rs)\<lparr>chatHistory := chatHistory (snd rs) @ [\<lparr>role = ''model'', parts = [fullText]\<rparr>]\<rparr>
           else snd rs)
            \<lparr>tasks := (tasks (snd rs))(t := Idle)\<rparr>
      | Inl error \<Rightarrow> handleMessage1_catch c t (snd rs))"

definition startRun1 :: "ctx \<Rightarrow> tid \<Rightarrow> chat_state \<Rightarrow> chat_state" where
  "startRun1 c t s =
     (let handler = nextHandler s;
          s1 = newHandler (channelMessage c) s;
          s2 = s1\<lparr>handlers := handlers s1 @ [handler]\<rparr>
      in s2\<lparr>tasks := (tasks s2)(t := AwaitChunk c handler)\<rparr>)"

definition retryLoop1 :: "ctx \<Rightarrow> nat \<Rightarrow> tid \<Rightarrow> chat_state \<Rightarrow> chat_state" where
  "retryLoop1 c attempt t s =
     (if attempt \<le> maxRetries then attemptCall1 c attempt t s
      else
        let handler = nextHandler s;
            s1 = newHandler (channelMessage c) s;
            s2 = s1\<lparr>handlers := handlers s1 @ [handler]\<rparr>
        in handleMessage1_afterRun c t (run_catch handler notIterable s2))"

definition onUpstreamReply1 ::
  "js_error + unit \<Rightarrow> ctx \<Rightarrow> nat \<Rightarrow> tid \<Rightarrow> chat_state \<Rightarrow> chat_state" where
  "onUpstreamReply1 r c attempt t s =
     (case r of
        Inr response \<Rightarrow> startRun1 c t s
      | Inl retryError \<Rightarrow>
          if isRateLimit retryError \<and> attempt < maxRetries
          then (emit (SetTimeout (retryDelay attempt)) s)
                 \<lparr>tasks := (tasks s)(t := AwaitBackoff c attempt)\<rparr>
          else handleMessage1_catch c t s)"

definition agentDispose1 :: "chat_state \<Rightarrow> chat_state" where
  "agentDispose1 s =
     (let s1 = emit DisconnectUser (s\<lparr>messageListener := False\<rparr>);
          s2 = fold dispose (handlers s1) s1
      in s2\<lparr>handlers := []\<rparr>)"

fun step1 :: "int \<Rightarrow> input \<Rightarrow> chat_state \<Rightarrow> chat_state" where
  "step1 now (MessageNew e) s = (if messageListener s then handleMessage1 now e s else s)"
| "step1 now (IndicatorStop e) s = fold (\<lambda>h. handleStopGenerating h e) (stopListeners s) s"
| "step1 now (TimerFired t) s =
     (case tasks s t of
        AwaitBackoff c attempt \<Rightarrow> retryLoop1 c (attempt + 1) t s
      | _ \<Rightarrow> s)"
| "step1 now (UpstreamReply t r) s =
     (case tasks s t of
        AwaitUpstream c attempt \<Rightarrow> onUpstreamReply1 r c attempt t s
      | _ \<Rightarrow> s)"
| "step1 now (StreamChunk t chunk_text) s =
     (case tasks s t of
        AwaitChunk c h \<Rightarrow>
          if is_done (heap s h) then handleMessage1_afterRun c t (run_after_loop h s)
          else run_chunk h chunk_text now s
      | _ \<Rightarrow> s)"
| "step1 now (StreamEnd t) s =
     (case tasks s t of
        AwaitChunk c h \<Rightarrow> handleMessage1_afterRun c t (run_after_loop h s)
      | _ \<Rightarrow> s)"
| "step1 now (StreamThrow t err) s =
     (case tasks s t of
        AwaitChunk c h \<Rightarrow> handleMessage1_afterRun c t (run_catch h err s)
      | _ \<Rightarrow> s)"
| "step1 now AgentDispose s = agentDispose1 s"
| "step1 now (TransportFault w) s = s"

definition exec1 :: "(int \<times> input) list \<Rightarrow> chat_state \<Rightarrow> chat_state" where
  "exec1 ins s = fold (\<lambda>(now, i). step1 now i) ins s"

text \<open>The agent of this variant after its construction at time \<open>t0\<close> and \<^verbatim>\<open>init\<close>.\<close>

definition initAgent1 :: "string option \<Rightarrow> string \<Rightarrow> int \<Rightarrow> chat_state" where
  "initAgent1 uid c t0 =
     \<lparr>client_user_id = uid, messageListener = True, stopListeners = [], channel_cid = c,
      nextMessageId = 0, trace = [],
      heap = (\<lambda>h. \<lparr>message_text = [], is_done = True, last_update_time = 0,
                     message = \<lparr>cid = c, mid = 0\<rparr>\<rparr>),
      nextHandler = 0, genai = True, lastInteractionTs = t0, chatHistory = [],
      handlers = [], tasks = (\<lambda>t. Idle), nextTask = 0\<rparr>"

section \<open>Invariants of the queuing agent\<close>

text \<open>
  What the entries of a handler leave alone: the tasks, the agent's flag, queue, counter
  and history, and the calls of the completion service in the trace. A handler that is done
  stays done, and the agent's list of handlers only loses elements.
\<close>

fun is_call :: "effect \<Rightarrow> bool" where
  "is_call (GenerateContentStream contents c) = True"
| "is_call e = False"

definition handler_frame :: "queuing_agent \<Rightarrow> queuing_agent \<Rightarrow> bool" where
  "handler_frame s s' \<longleftrightarrow>
     tasks s' = tasks s \<and> nextTask s' = nextTask s \<and> genai s' = genai s
     \<and> messageListener s' = messageListener s \<and> nextHandler s' = nextHandler s
     \<and> client_user_id s' = client_user_id s
     \<and> isProcessing s' = isProcessing s \<and> messageQueue s' = messageQueue s
     \<and> pendingFault s' = pendingFault s
     \<and> apiCallCount s' = apiCallCount s \<and> chatHistory s' = chatHistory s
     \<and> filter is_call (trace s') = filter is_call (trace s)
     \<and> (\<forall>h. is_done (heap s h) \<longrightarrow> is_done (heap s' h))
     \<and> set (handlers s') \<subseteq> set (handlers s)
     \<and> (distinct (handlers s) \<longrightarrow> distinct (handlers s'))"

text \<open>
  The invariant behind the single flight: at most one task is in flight; while the agent
  listens, the flag is set whenever a task is in flight (after a rejected write it stays
  set with no task in flight); the queue is empty when the flag is not set; a handler
  that is not done is the one whose stream the task in flight reads.
\<close>

definition agent_inv :: "queuing_agent \<Rightarrow> bool" where
  "agent_inv s \<longleftrightarrow>
     genai s
     \<and> (\<forall>t t'. tasks s t \<noteq> Idle \<longrightarrow> tasks s t' \<noteq> Idle \<longrightarrow> t = t')
     \<and> (\<forall>t. tasks s t \<noteq> Idle \<longrightarrow> t < nextTask s)
     \<and> (messageListener s \<longrightarrow> (\<exists>t. tasks s t \<noteq> Idle) \<longrightarrow> isProcessing s)
     \<and> (\<not> messageListener s \<longrightarrow> \<not> isProcessing s)
     \<and> (\<not> isProcessing s \<longrightarrow> messageQueue s = [])
     \<and> (\<forall>h. \<not> is_done (heap s h) \<longrightarrow> (\<exists>t c. tasks s t = AwaitChunk c h))
     \<and> distinct (handlers s) \<and> (\<forall>h \<in> set (handlers s). h < nextHandler s)"

text \<open>The state in which task \<open>t\<close> runs between two waits: no other task is in flight and
  every handler is done.\<close>

definition quiet :: "tid \<Rightarrow> queuing_agent \<Rightarrow> bool" where
  "quiet t s \<longleftrightarrow>
     genai s
     \<and> (\<forall>t'. t' \<noteq> t \<longrightarrow> tasks s t' = Idle)
     \<and> t < nextTask s
     \<and> (\<forall>h. is_done (heap s h))
     \<and> (\<not> messageListener s \<longrightarrow> messageQueue s = [])
     \<and> distinct (handlers s) \<and> (\<forall>h \<in> set (handlers s). h < nextHandler s)"

section \<open>Messages, turns and calls\<close>

text \<open>The filter of \<^verbatim>\<open>handleMessage\<close> for an agent whose \<^verbatim>\<open>genai\<close> is set and whose client
  user is \<open>uid\<close>, and the messages of a run that pass it, in the order of their arrival.\<close>

definition accepted :: "string option \<Rightarrow> event \<Rightarrow> bool" where
  "accepted uid e \<longleftrightarrow>
     user_id e \<noteq> uid
     \<and> (case ev_message e of
          None \<Rightarrow> False
        | Some m \<Rightarrow>
            \<not> ai_generated m
            \<and> (case msg_text m of None \<Rightarrow> False | Some messageText \<Rightarrow> messageText \<noteq> []))"

fun acceptedOf :: "string option \<Rightarrow> int \<times> input \<Rightarrow> event list" where
  "acceptedOf uid (now, MessageNew e) = (if accepted uid e then [e] else [])"
| "acceptedOf uid (now, i) = []"

definition acceptedMessages :: "string option \<Rightarrow> (int \<times> input) list \<Rightarrow> event list" where
  "acceptedMessages uid ins = concat (map (acceptedOf uid) ins)"

text \<open>The turn that \<^verbatim>\<open>processMessage\<close> pushes for an event; the user and model turns of
  a history.\<close>

definition userTurn :: "event \<Rightarrow> turn" where
  "userTurn e = \<lparr>role = ''user'', parts = [eventText e]\<rparr>"

definition isUser :: "turn \<Rightarrow> bool" where
  "isUser tn \<longleftrightarrow> role tn = ''user''"

definition isModel :: "turn \<Rightarrow> bool" where
  "isModel tn \<longleftrightarrow> role tn = ''model''"

text \<open>The invocations of the completion service in a trace: the contents passed to each,
  and the last turn of such contents.\<close>

fun contentsOf :: "effect \<Rightarrow> turn list" where
  "contentsOf (GenerateContentStream contents c) = contents"
| "contentsOf e = []"

definition calls :: "effect list \<Rightarrow> turn list list" where
  "calls tr = map contentsOf (filter is_call tr)"

definition lastTurn :: "turn list \<Rightarrow> turn option" where
  "lastTurn contents = (case rev contents of [] \<Rightarrow> None | tn # tns \<Rightarrow> Some tn)"

text \<open>A reply of the completion service that the retry loop classifies as a rate limit.\<close>

fun rateLimitReply :: "int \<times> input \<Rightarrow> bool" where
  "rateLimitReply (now, UpstreamReply t (Inl retryError)) = isRateLimit retryError"
| "rateLimitReply (now, i) = False"

text \<open>
  The bookkeeping of a run without rejected writes that has accepted the messages \<open>A\<close>
  (no model turn has an empty text, no fault is pending, the flag is set only while a task
  is in flight): the user turns of the
  history followed by the queue are the accepted messages in order; every accepted message
  is counted as a call, queued, or waiting for the spacing timer; every model turn follows
  a user turn of its own.
\<close>

definition spacing :: "queuing_agent \<Rightarrow> nat" where
  "spacing s = (if \<exists>t c. tasks s t = AwaitSpacing c then 1 else 0)"

definition busy :: "queuing_agent \<Rightarrow> nat" where
  "busy s = (if \<exists>t. tasks s t \<noteq> Idle then 1 else 0)"

definition history_inv :: "event list \<Rightarrow> queuing_agent \<Rightarrow> bool" where
  "history_inv A s \<longleftrightarrow>
     messageListener s
     \<and> filter isUser (chatHistory s) @ map userTurn (messageQueue s) = map userTurn A
     \<and> apiCallCount s + length (messageQueue s) + spacing s = length A
     \<and> length (filter isModel (chatHistory s)) + busy s \<le> length (filter isUser (chatHistory s))
     \<and> \<lparr>role = ''model'', parts = [[]]\<rparr> \<notin> set (chatHistory s)
     \<and> pendingFault s = None
     \<and> (isProcessing s \<longrightarrow> busy s = 1)"

text \<open>The same between two calls of \<^verbatim>\<open>processMessage\<close> of task \<open>t\<close>.\<close>

definition history_quiet :: "event list \<Rightarrow> queuing_agent \<Rightarrow> bool" where
  "history_quiet A s \<longleftrightarrow>
     messageListener s
     \<and> filter isUser (chatHistory s) @ map userTurn (messageQueue s) = map userTurn A
     \<and> apiCallCount s + length (messageQueue s) = length A
     \<and> length (filter isModel (chatHistory s)) \<le> length (filter isUser (chatHistory s))
     \<and> \<lparr>role = ''model'', parts = [[]]\<rparr> \<notin> set (chatHistory s)
     \<and> pendingFault s = None"

text \<open>In a run without rejected writes and without rate-limit replies no task waits
  for a backoff timer, and the completion service has been invoked once for every user turn of the history, in order,
  but for the turn of a message that still waits for the spacing timer.\<close>

definition call_inv :: "queuing_agent \<Rightarrow> bool" where
  "call_inv s \<longleftrightarrow>
     (\<forall>t c a. tasks s t \<noteq> AwaitBackoff c a)
     \<and> (if \<exists>t c. tasks s t = AwaitSpacing c
        then \<exists>hist u. chatHistory s = hist @ [u] \<and> isUser u
               \<and> map lastTurn (calls (trace s)) = map Some (filter isUser hist)
        else map lastTurn (calls (trace s)) = map Some (filter isUser (chatHistory s)))"

fun isDispose :: "int \<times> input \<Rightarrow> bool" where
  "isDispose (now, AgentDispose) = True"
| "isDispose (now, i) = False"

fun isFault :: "int \<times> input \<Rightarrow> bool" where
  "isFault (now, TransportFault w) = True"
| "isFault (now, i) = False"

text \<open>Concrete inputs: an agent after \<^verbatim>\<open>init\<close>, and a handler just constructed for the
  message 7 of its channel.\<close>

definition exampleAgent :: queuing_agent where
  "exampleAgent = initAgent (Some ''ai-bot'') ''messaging:c1'' 0"

definition exampleHandler :: queuing_agent where
  "exampleHandler = newHandler \<lparr>cid = ''messaging:c1'', mid = 7\<rparr> exampleAgent"

text \<open>A message of another user, a stop signal, and a rate-limit error of the completion
  service.\<close>

definition exampleMessage :: "string \<Rightarrow> event" where
  "exampleMessage t =
     \<lparr>user_id = Some ''alice'',
      ev_message = Some \<lparr>msg_text = Some t, ai_generated = False, writingTask = None\<rparr>,
      message_id = None\<rparr>"

definition exampleStop :: "nat \<Rightarrow> event" where
  "exampleStop m = \<lparr>user_id = Some ''alice'', ev_message = None, message_id = Some m\<rparr>"

definition rateLimitError :: js_error where
  "rateLimitError =
     \<lparr>err_message = Some ''429 Too Many Requests'',
      err_toString = ''Error: 429 Too Many Requests''\<rparr>"

text \<open>Two messages arrive one millisecond apart; the first is answered in one chunk, the
  second, after the spacing delay, by an empty stream.\<close>

definition burstRun :: "(int \<times> input) list" where
  "burstRun =
     [(10000, MessageNew (exampleMessage ''first'')),
      (10001, MessageNew (exampleMessage ''second'')),
      (10100, UpstreamReply 0 (Inr ())),
      (10200, StreamChunk 0 (Some ''Hello'')),
      (10300, StreamEnd 0),
      (14000, TimerFired 0),
      (14100, UpstreamReply 0 (Inr ())),
      (14200, StreamEnd 0)]"

text \<open>One message; the first call of the completion service is rate limited, the second
  succeeds.\<close>

definition retriedRun :: "(int \<times> input) list" where
  "retriedRun =
     [(10000, MessageNew (exampleMessage ''first'')),
      (10100, UpstreamReply 0 (Inl rateLimitError)),
      (12100, TimerFired 0),
      (12200, UpstreamReply 0 (Inr ())),
      (12300, StreamChunk 0 (Some ''Hello'')),
      (12400, StreamEnd 0)]"

text \<open>The transport rejects the \<^verbatim>\<open>sendMessage\<close> of the first of three messages.\<close>

definition rejectedRun :: "(int \<times> input) list" where
  "rejectedRun =
     [(10000, TransportFault OnSendMessage),
      (10001, MessageNew (exampleMessage ''first'')),
      (10002, MessageNew (exampleMessage ''second'')),
      (10003, MessageNew (exampleMessage ''third''))]"

text \<open>An agent of the variant without a queue, and a run in which a second message
  arrives while the call for the first is in flight.\<close>

definition exampleAgent1 :: chat_state where
  "exampleAgent1 = initAgent1 (Some ''ai-bot'') ''messaging:c1'' 0"

definition overlapRun :: "(int \<times> input) list" where
  "overlapRun =
     [(10000, MessageNew (exampleMessage ''first'')),
      (10001, MessageNew (exampleMessage ''second'')),
      (10100, UpstreamReply 0 (Inr ())),
      (10101, UpstreamReply 1 (Inr ()))]"

text \<open>A message is answered with one chunk and then stopped by a stop signal for its
  message.\<close>

definition stoppedRun :: "(int \<times> input) list" where
  "stoppedRun =
     [(10000, MessageNew (exampleMessage ''first'')),
      (10100, UpstreamReply 0 (Inr ())),
      (10200, StreamChunk 0 (Some ''Hi'')),
      (10300, IndicatorStop (exampleStop 0))]"

text \<open>A message is answered with one chunk, then the stream throws.\<close>

definition brokenRun :: "(int \<times> input) list" where
  "brokenRun =
     [(10000, MessageNew (exampleMessage ''first'')),
      (10100, UpstreamReply 0 (Inr ())),
      (10200, StreamChunk 0 (Some ''Partial''))]"

definition streamError :: js_error where
  "streamError =
     \<lparr>err_message = Some ''socket closed'', err_toString = ''Error: socket closed''\<rparr>"

text \<open>The texts written to the message \<open>m\<close> in a trace, in order: the last one is what
  the message shows.\<close>

fun writeTo :: "nat \<Rightarrow> effect \<Rightarrow> string list" where
  "writeTo m (PartialUpdateMessage m' t) = (if m' = m then [t] else [])"
| "writeTo m e = []"

definition writesTo :: "nat \<Rightarrow> effect list \<Rightarrow> string list" where
  "writesTo m tr = concat (map (writeTo m) tr)"

section \<open>Properties of the response handler\<close>

lemmas handler_defs = emit_def upd_handler_def removeHandler_def newHandler_def dispose_def
  handleStopGenerating_def handleError_def run_chunk_def run_after_loop_def run_catch_def

lemma gapped_lower: "gapped l ts \<Longrightarrow> x \<in> set ts \<Longrightarrow> x > l + 1000"
  by (induction ts arbitrary: l) fastforce+

lemma gapped_window: "gapped l ts \<Longrightarrow> length (filter (\<lambda>t. w \<le> t \<and> t \<le> w + 1000) ts) \<le> 1"
proof (induction ts arbitrary: l)
  case Nil
  then show ?case by simp
next
  case (Cons t ts)
  have g: "gapped t ts" using Cons.prems by simp
  show ?case
  proof (cases "w \<le> t \<and> t \<le> w + 1000")
    case True
    have "filter (\<lambda>x. w \<le> x \<and> x \<le> w + 1000) ts = []"
      using True by (fastforce simp: filter_empty_conv dest: gapped_lower [OF g])
    with True show ?thesis by simp
  next
    case False
    with Cons.IH [OF g] show ?thesis by auto
  qed
qed

lemma run_chunk_done [simp]: "is_done (heap (run_chunk h c now s) h) = is_done (heap s h)"
  by (auto simp: handler_defs Let_def split: option.splits)

lemma run_chunk_message [simp]: "message (heap (run_chunk h c now s) h) = message (heap s h)"
  by (auto simp: handler_defs Let_def split: option.splits)

lemma run_chunk_text:
  "message_text (heap (run_chunk h c now s) h) = message_text (heap s h) @ chunkText (c, now)"
  by (auto simp: handler_defs chunkText_def Let_def split: option.splits)

lemma run_chunk_flush:
  "trace (run_chunk h c now s) \<noteq> trace s \<Longrightarrow>
     now - last_update_time (heap s h) > 1000 \<and> last_update_time (heap (run_chunk h c now s) h) = now"
  by (auto simp: handler_defs Let_def split: option.splits if_splits)

lemma run_chunk_noflush:
  "trace (run_chunk h c now s) = trace s \<Longrightarrow>
     last_update_time (heap (run_chunk h c now s) h) = last_update_time (heap s h)"
  by (auto simp: handler_defs Let_def split: option.splits if_splits)

lemma flushTimes_gapped: "gapped (last_update_time (heap s h)) (flushTimes h cs s)"
proof (induction cs arbitrary: s)
  case Nil
  then show ?case by simp
next
  case (Cons c cs)
  obtain t now where c: "c = (t, now)" by (cases c)
  show ?case
  proof (cases "is_done (heap s h)")
    case True
    then show ?thesis by (simp add: c)
  next
    case False
    show ?thesis
    proof (cases "trace (run_chunk h t now s) = trace s")
      case True
      with False Cons.IH [of "run_chunk h t now s"] run_chunk_noflush [OF True]
      show ?thesis by (simp add: c)
    next
      case neq: False
      with False Cons.IH [of "run_chunk h t now s"] run_chunk_flush [OF neq]
      show ?thesis by (simp add: c)
    qed
  qed
qed

lemma run_chunk_trace:
  "\<exists>ws. trace (run_chunk h c now s) = trace s @ map (PartialUpdateMessage (mid (message (heap s h)))) ws"
proof (cases "trace (run_chunk h c now s) = trace s")
  case True
  then have "trace (run_chunk h c now s) = trace s @ map (PartialUpdateMessage (mid (message (heap s h)))) []" by simp
  then show ?thesis by blast
next
  case False
  then have "trace (run_chunk h c now s) =
    trace s @ map (PartialUpdateMessage (mid (message (heap s h)))) [message_text (heap s h) @ chunkText (c, now)]"
    by (auto simp: handler_defs chunkText_def Let_def split: option.splits if_splits)
  then show ?thesis by blast
qed

lemma run_loop_props:
  "\<not> is_done (heap s h) \<Longrightarrow>
   \<not> is_done (heap (run_loop h cs s) h) \<and>
   message (heap (run_loop h cs s) h) = message (heap s h) \<and>
   message_text (heap (run_loop h cs s) h) = message_text (heap s h) @ concat (map chunkText cs) \<and>
   (\<exists>ws. trace (run_loop h cs s) = trace s @ map (PartialUpdateMessage (mid (message (heap s h)))) ws)"
proof (induction cs arbitrary: s)
  case Nil
  have "trace s = trace s @ map (PartialUpdateMessage (mid (message (heap s h)))) []" by simp
  then show ?case using Nil by (simp del: append_Nil2 list.map)
next
  case (Cons c cs)
  obtain t now where c: "c = (t, now)" by (cases c)
  let ?s1 = "run_chunk h t now s"
  have nd: "\<not> is_done (heap ?s1 h)" using Cons.prems by simp
  note IH = Cons.IH [OF nd]
  obtain ws1 where w1: "trace ?s1 = trace s @ map (PartialUpdateMessage (mid (message (heap s h)))) ws1"
    using run_chunk_trace by blast
  obtain ws2 where w2: "trace (run_loop h cs ?s1) = trace ?s1 @ map (PartialUpdateMessage (mid (message (heap s h)))) ws2"
    using IH by auto
  have "trace (run_loop h (c # cs) s) = trace s @ map (PartialUpdateMessage (mid (message (heap s h)))) (ws1 @ ws2)"
    using Cons.prems w1 w2 by (simp add: c)
  then have ex: "\<exists>ws. trace (run_loop h (c # cs) s) = trace s @ map (PartialUpdateMessage (mid (message (heap s h)))) ws"
    by blast
  show ?case using Cons.prems IH ex by (simp add: c run_chunk_text)
qed

lemma newHandler_fresh [simp]:
  "heap (newHandler m s) (nextHandler s) = \<lparr>message_text = [], is_done = False, last_update_time = 0, message = m\<rparr>"
  "trace (newHandler m s) = trace s"
  by (simp_all add: newHandler_def)

text \<open>
  Claim C3. Whatever the stream delivers and whenever, the loop of \<^verbatim>\<open>run\<close> on a new
  handler writes to the message at most once in any window of 1000 ms; when the stream is
  exhausted \<^verbatim>\<open>run\<close> returns the concatenation of the texts of all chunks, and the
  last two effects are the write of that full text and the indicator-clear event.
\<close>

theorem run_throttles_and_writes_full_text:
  "(\<forall>w. length (filter (\<lambda>t. w \<le> t \<and> t \<le> w + 1000)
                  (flushTimes (nextHandler s) cs (newHandler m s))) \<le> 1)
   \<and> fst (run (nextHandler s) cs (newHandler m s)) = Inr (concat (map chunkText cs))
   \<and> (\<exists>ws. trace (snd (run (nextHandler s) cs (newHandler m s))) =
          trace s @ map (PartialUpdateMessage (mid m)) ws
            @ [PartialUpdateMessage (mid m) (concat (map chunkText cs)),
               SendEvent (IndicatorClear (cid m) (mid m))])"
proof -
  let ?h = "nextHandler s" and ?s0 = "newHandler m s"
  let ?s1 = "run_loop ?h cs ?s0"
  have nd: "\<not> is_done (heap ?s0 ?h)" by simp
  have w: "\<forall>w. length (filter (\<lambda>t. w \<le> t \<and> t \<le> w + 1000) (flushTimes ?h cs ?s0)) \<le> 1"
    using gapped_window [OF flushTimes_gapped] by blast
  from run_loop_props [OF nd, of cs]
  have l1: "\<not> is_done (heap ?s1 ?h)" and l2: "message (heap ?s1 ?h) = m"
    and l3: "message_text (heap ?s1 ?h) = concat (map chunkText cs)"
    and l4: "\<exists>ws. trace ?s1 = trace s @ map (PartialUpdateMessage (mid m)) ws"
    by simp_all
  have r: "fst (run ?h cs ?s0) = Inr (concat (map chunkText cs))"
    using l1 l3 by (simp add: run_def run_after_loop_def emit_def Let_def)
  obtain ws where ws: "trace ?s1 = trace s @ map (PartialUpdateMessage (mid m)) ws"
    using l4 by blast
  have "trace (snd (run ?h cs ?s0)) =
          trace s @ map (PartialUpdateMessage (mid m)) ws
            @ [PartialUpdateMessage (mid m) (concat (map chunkText cs)),
               SendEvent (IndicatorClear (cid m) (mid m))]"
    using l1 l2 l3 ws by (simp add: run_def handler_defs Let_def)
  then show ?thesis using w r by blast
qed

lemma dispose_trace [simp]: "trace (dispose h s) = trace s"
  by (simp add: handler_defs Let_def)

lemma dispose_done [simp]: "is_done (heap (dispose h s) h)"
  by (simp add: handler_defs Let_def)

lemma dispose_when_done [simp]: "is_done (heap s h) \<Longrightarrow> dispose h s = s"
  by (simp add: dispose_def)

lemma dispose_removes:
  "h \<notin> set (handlers (dispose h s)) \<or> is_done (heap s h)"
  "h \<notin> set (stopListeners (dispose h s)) \<or> is_done (heap s h)"
  by (simp_all add: handler_defs Let_def)

lemma enter_when_done: "is_done (heap s h) \<Longrightarrow> enter h e s = s"
  by (cases e) (simp_all add: handleStopGenerating_def handleError_def run_after_loop_def run_catch_def)

lemma enters_when_done: "is_done (heap s h) \<Longrightarrow> fold (enter h) es s = s"
  by (induction es) (simp_all add: enter_when_done)

lemma terminal_done: "terminal e h s \<Longrightarrow> is_done (heap (enter h e s) h)"
  by (cases e) (auto simp: handler_defs Let_def)

lemma dispose_funpow: "(dispose h ^^ n) (dispose h s) = dispose h s"
  by (induction n) simp_all

text \<open>
  \<^verbatim>\<open>dispose\<close> never writes to the channel and calling it again changes nothing. When
  the entries come one at a time, each run to its end, no entry after \<^verbatim>\<open>is_done\<close> is set
  changes the state or adds to the trace, and every terminal entry sets \<^verbatim>\<open>is_done\<close>.
\<close>

lemma done_guards_uninterrupted_entries:
  "(dispose h ^^ n) (dispose h s) = dispose h s
   \<and> trace (dispose h s) = trace s
   \<and> (is_done (heap s h) \<longrightarrow> fold (enter h) es s = s)
   \<and> (terminal e h s \<longrightarrow>
        is_done (heap (enter h e s) h) \<and> fold (enter h) es (enter h e s) = enter h e s)"
  using dispose_funpow dispose_trace enters_when_done terminal_done by blast

lemma exampleHandler_simps [simp]:
  "heap exampleHandler 0 = \<lparr>message_text = [], is_done = False, last_update_time = 0, message = \<lparr>cid = ''messaging:c1'', mid = 7\<rparr>\<rparr>"
  "trace exampleHandler = []" 
  "stopListeners exampleHandler = [0]"
  "handlers exampleHandler = []"
  by (simp_all add: exampleHandler_def exampleAgent_def newHandler_def initAgent_def)

text \<open>
  Entered without another entry in between, the handler with its waits does what \<open>enter\<close>
  does.
\<close>

lemma advance_uninterrupted:
  "world (fold (advance h) [Ends, RunWriteSettles, RunWriteSettles] (startStreaming s))
     = enter h ResumeEnd s"
  "world (fold (advance h) [Throws err, RunWriteSettles, RunWriteSettles] (startStreaming s))
     = enter h (ResumeThrow err) s"
  "world (fold (advance h) [Yields chunk_text now, RunWriteSettles] (startStreaming s))
     = enter h (ResumeChunk chunk_text now) s"
  "world (fold (advance h) [StopArrives ev, StopWriteSettles, StopWriteSettles] (startStreaming s))
     = enter h (CallHandleStopGenerating ev) s"
  "world (advance h DisposeCalled (startStreaming s)) = enter h CallDispose s"
  by (auto simp: startStreaming_def run_returns_def handler_defs Let_def split: option.splits)

text \<open>
  Claim C5 at concrete schedules. The stream of the handler of the example yields
  \<^verbatim>\<open>Hi\<close> and ends; \<^verbatim>\<open>run\<close> has tested \<^verbatim>\<open>is_done\<close> and awaits its final write. A stop
  signal for the message (or a forced \<^verbatim>\<open>dispose\<close>) now sets \<^verbatim>\<open>is_done\<close>; when the write
  settles, \<^verbatim>\<open>run\<close> still emits its indicator-clear event, after the flag was set and, for
  the stop signal, beside the write and the indicator-clear event of
  \<^verbatim>\<open>handleStopGenerating\<close>. In the same way \<^verbatim>\<open>handleError\<close> still overwrites the message
  when a forced \<^verbatim>\<open>dispose\<close> comes while it awaits its indicator-error event.
\<close>

theorem write_in_flight_escapes_done:
  "is_done (heap (world (fold (advance 0)
       [Yields (Some ''Hi'') 5000, RunWriteSettles, Ends, StopArrives (exampleStop 7)]
       (startStreaming exampleHandler))) 0)
   \<and> trace (world (fold (advance 0)
       [Yields (Some ''Hi'') 5000, RunWriteSettles, Ends, StopArrives (exampleStop 7),
        RunWriteSettles, StopWriteSettles, RunWriteSettles, StopWriteSettles]
       (startStreaming exampleHandler)))
     = [PartialUpdateMessage 7 ''Hi'', PartialUpdateMessage 7 ''Hi'',
        PartialUpdateMessage 7 ''Hi'', SendEvent (IndicatorClear ''messaging:c1'' 7),
        SendEvent (IndicatorClear ''messaging:c1'' 7)]
   \<and> is_done (heap (world (fold (advance 0)
       [Yields (Some ''Hi'') 5000, RunWriteSettles, Ends, DisposeCalled]
       (startStreaming exampleHandler))) 0)
   \<and> trace (world (fold (advance 0)
       [Yields (Some ''Hi'') 5000, RunWriteSettles, Ends, DisposeCalled]
       (startStreaming exampleHandler)))
     = [PartialUpdateMessage 7 ''Hi'', PartialUpdateMessage 7 ''Hi'']
   \<and> trace (world (fold (advance 0)
       [Yields (Some ''Hi'') 5000, RunWriteSettles, Ends, DisposeCalled, RunWriteSettles]
       (startStreaming exampleHandler)))
     = [PartialUpdateMessage 7 ''Hi'', PartialUpdateMessage 7 ''Hi'',
        SendEvent (IndicatorClear ''messaging:c1'' 7)]
   \<and> is_done (heap (world (fold (advance 0) [Throws streamError, DisposeCalled]
       (startStreaming exampleHandler))) 0)
   \<and> trace (world (fold (advance 0) [Throws streamError, DisposeCalled, RunWriteSettles]
       (startStreaming exampleHandler)))
     = [SendEvent (IndicatorUpdate AI_STATE_ERROR ''messaging:c1'' 7),
        PartialUpdateMessage 7 ''Error: socket closed'']"
  by code_simp

lemma new_effects_append [simp]: "trace s' = trace s @ es \<Longrightarrow> new_effects s s' = es"
  by (simp add: new_effects_def)

text \<open>
  Claim C7. When the stream throws while the handler is not done, \<^verbatim>\<open>run\<close> emits the
  indicator-error event, overwrites the message with the description of the error (with
  the generic text when the description is empty), disposes the handler (it leaves the
  agent's handlers and the stop listeners), and its promise is fulfilled with the text
  accumulated so far: the exception does not leave \<^verbatim>\<open>run\<close>. The \<^verbatim>\<open>try\<close> block of
  \<^verbatim>\<open>processMessage\<close> goes on as after any return of \<^verbatim>\<open>run\<close>: its own \<^verbatim>\<open>catch\<close> block
  is not entered and nothing more is written.
\<close>

theorem stream_error_is_reported_and_contained:
  "\<not> is_done (heap s h) \<Longrightarrow>
     fst (run_catch h err s) = Inr (message_text (heap s h))
     \<and> new_effects s (snd (run_catch h err s)) =
         [SendEvent (IndicatorUpdate AI_STATE_ERROR (cid (message (heap s h))) (mid (message (heap s h)))),
          PartialUpdateMessage (mid (message (heap s h)))
            (if err_toString err = [] then ''Error generating the message'' else err_toString err)]
     \<and> is_done (heap (snd (run_catch h err s)) h)
     \<and> h \<notin> set (handlers (snd (run_catch h err s)))
     \<and> h \<notin> set (stopListeners (snd (run_catch h err s)))
     \<and> trace (processMessage_afterRun c (run_catch h err s)) = trace (snd (run_catch h err s))"
  by (simp add: handler_defs new_effects_def processMessage_afterRun_def Let_def)

text \<open>
  The theorem at the handler of the example.
\<close>

theorem stream_error_is_reported_and_contained_witness:
  "\<not> is_done (heap exampleHandler 0)
   \<and> fst (run_catch 0 \<lparr>err_message = Some ''socket closed'', err_toString = ''Error: socket closed''\<rparr> exampleHandler) = Inr []
   \<and> new_effects exampleHandler (snd (run_catch 0 \<lparr>err_message = Some ''socket closed'', err_toString = ''Error: socket closed''\<rparr> exampleHandler)) =
         [SendEvent (IndicatorUpdate AI_STATE_ERROR ''messaging:c1'' 7),
          PartialUpdateMessage 7 ''Error: socket closed'']"
  using stream_error_is_reported_and_contained [where s = exampleHandler and h = 0
      and err = "\<lparr>err_message = Some ''socket closed'', err_toString = ''Error: socket closed''\<rparr>"]
  by simp

text \<open>
  Claim C8, as amended. On a handler that is not done: the end of the stream writes the
  final text once and emits one indicator-clear event; an exception of the stream emits one
  indicator-error event and writes the error text once; a stop signal for the handler's
  message writes the accumulated text only when it is not empty and emits one
  indicator-clear event; a forced dispose writes nothing and emits nothing. After the end
  of the stream, an exception of the stream and a forced dispose the handler is done, is no
  longer a stop listener and is no longer among the agent's handlers.
\<close>

theorem terminal_paths_cleanup:
  "\<not> is_done (heap s h) \<Longrightarrow>
     new_effects s (enter h ResumeEnd s) =
       [PartialUpdateMessage (mid (message (heap s h))) (message_text (heap s h)),
        SendEvent (IndicatorClear (cid (message (heap s h))) (mid (message (heap s h))))]
     \<and> new_effects s (enter h (ResumeThrow err) s) =
       [SendEvent (IndicatorUpdate AI_STATE_ERROR (cid (message (heap s h))) (mid (message (heap s h)))),
        PartialUpdateMessage (mid (message (heap s h)))
          (if err_toString err = [] then ''Error generating the message'' else err_toString err)]
     \<and> (message_id ev = Some (mid (message (heap s h))) \<longrightarrow>
          new_effects s (enter h (CallHandleStopGenerating ev) s) =
            (if message_text (heap s h) = [] then []
             else [PartialUpdateMessage (mid (message (heap s h))) (message_text (heap s h))])
            @ [SendEvent (IndicatorClear (cid (message (heap s h))) (mid (message (heap s h))))])
     \<and> new_effects s (enter h CallDispose s) = []
     \<and> (\<forall>e \<in> {ResumeEnd, ResumeThrow err, CallDispose}.
          is_done (heap (enter h e s) h)
          \<and> h \<notin> set (handlers (enter h e s))
          \<and> h \<notin> set (stopListeners (enter h e s)))"
  by (simp add: handler_defs new_effects_def Let_def)

text \<open>
  The theorem at the handler of the example.
\<close>

theorem terminal_paths_cleanup_witness:
  "\<not> is_done (heap exampleHandler 0)
   \<and> new_effects exampleHandler (enter 0 ResumeEnd exampleHandler) =
       [PartialUpdateMessage 7 [], SendEvent (IndicatorClear ''messaging:c1'' 7)]
   \<and> message_id \<lparr>user_id = None, ev_message = None, message_id = Some 7\<rparr> = Some (mid (message (heap exampleHandler 0)))
   \<and> new_effects exampleHandler (enter 0 (CallHandleStopGenerating \<lparr>user_id = None, ev_message = None, message_id = Some 7\<rparr>) exampleHandler) =
       [SendEvent (IndicatorClear ''messaging:c1'' 7)]
   \<and> 0 \<notin> set (stopListeners (enter 0 CallDispose exampleHandler))"
  using terminal_paths_cleanup [of exampleHandler 0 "\<lparr>err_message = None, err_toString = []\<rparr>" "\<lparr>user_id = None, ev_message = None, message_id = Some 7\<rparr>"]
  by simp

text \<open>
  Claim C8 as stated fails: a forced dispose of the handler of the example adds nothing to
  the trace, so it performs no finalization write and emits no closing event; a stop signal
  for the handler, whose text is still empty, performs no write either.
\<close>

theorem forced_dispose_writes_nothing:
  "new_effects exampleHandler (enter 0 CallDispose exampleHandler) = []
   \<and> length (filter is_write (new_effects exampleHandler (enter 0 CallDispose exampleHandler))) \<noteq> 1
   \<and> length (filter is_closing (new_effects exampleHandler (enter 0 CallDispose exampleHandler))) \<noteq> 1
   \<and> length (filter is_write (new_effects exampleHandler
        (enter 0 (CallHandleStopGenerating \<lparr>user_id = None, ev_message = None, message_id = Some 7\<rparr>) exampleHandler))) \<noteq> 1"
  by (simp add: handler_defs new_effects_def Let_def)

section \<open>The retry loop\<close>

lemma js_includes_iff: "js_includes s sub \<longleftrightarrow> (\<exists>p q. s = p @ sub @ q)"
proof (induction s)
  case Nil
  then show ?case by auto
next
  case (Cons x xs)
  have pre: "take (length sub) (x # xs) = sub \<longleftrightarrow> (\<exists>q. x # xs = sub @ q)"
    by (metis append_eq_conv_conj append_take_drop_id)
  show ?case
  proof
    assume "js_includes (x # xs) sub"
    then consider "take (length sub) (x # xs) = sub" | "js_includes xs sub" by auto
    then show "\<exists>p q. x # xs = p @ sub @ q"
    proof cases
      case 1
      then obtain q where "x # xs = sub @ q" using pre by blast
      then have "x # xs = [] @ sub @ q" by simp
      then show ?thesis by blast
    next
      case 2
      then obtain p q where "xs = p @ sub @ q" using Cons.IH by blast
      then have "x # xs = (x # p) @ sub @ q" by simp
      then show ?thesis by blast
    qed
  next
    assume "\<exists>p q. x # xs = p @ sub @ q"
    then obtain p q where pq: "x # xs = p @ sub @ q" by blast
    show "js_includes (x # xs) sub"
    proof (cases p)
      case Nil
      with pq have "\<exists>q. x # xs = sub @ q" by auto
      then show ?thesis using pre by simp
    next
      case (Cons y p')
      with pq have "xs = p' @ sub @ q" by simp
      then have "js_includes xs sub" using Cons.IH by blast
      then show ?thesis by simp
    qed
  qed
qed

lemma generateWithRetry_from:
  "attempt \<le> maxRetries \<Longrightarrow>
   generateWithRetry gen attempt =
     (settled gen (attempt + length (takeWhile (rateLimited gen) [attempt..<maxRetries])),
      concat (map (\<lambda>i. [Attempt i, Wait (retryDelay i)])
                [attempt..<attempt + length (takeWhile (rateLimited gen) [attempt..<maxRetries])])
        @ [Attempt (attempt + length (takeWhile (rateLimited gen) [attempt..<maxRetries]))])"
proof (induction gen attempt rule: generateWithRetry.induct)
  case (1 gen attempt)
  show ?case
  proof (cases "rateLimited gen attempt \<and> attempt < maxRetries")
    case True
    then obtain e where e: "gen attempt = Inl e" "isRateLimit e"
      by (auto simp: rateLimited_def split: sum.splits)
    have up: "[attempt..<maxRetries] = attempt # [Suc attempt..<maxRetries]"
      using True by (simp add: upt_rec)
    let ?n = "length (takeWhile (rateLimited gen) [Suc attempt..<maxRetries])"
    have tw: "length (takeWhile (rateLimited gen) [attempt..<maxRetries]) = Suc ?n"
      using True by (simp add: up)
    have IH: "generateWithRetry gen (Suc attempt) =
       (settled gen (Suc attempt + ?n),
        concat (map (\<lambda>i. [Attempt i, Wait (retryDelay i)]) [Suc attempt..<Suc attempt + ?n])
          @ [Attempt (Suc attempt + ?n)])"
      using "1.IH" [OF "1.prems" e(1)] e(2) True by simp
    have up2: "[attempt..<attempt + Suc ?n] = attempt # [Suc attempt..<Suc attempt + ?n]"
      by (simp add: upt_rec)
    have "generateWithRetry gen attempt =
       (settled gen (Suc attempt + ?n),
        Attempt attempt # Wait (retryDelay attempt) #
          concat (map (\<lambda>i. [Attempt i, Wait (retryDelay i)]) [Suc attempt..<Suc attempt + ?n])
          @ [Attempt (Suc attempt + ?n)])"
      using True e "1.prems" by (subst generateWithRetry.simps) (simp add: IH)
    then show ?thesis
      unfolding tw up2 by simp
  next
    case False
    have tw: "takeWhile (rateLimited gen) [attempt..<maxRetries] = []"
      using False by (cases "attempt < maxRetries") (simp_all add: upt_rec)
    show ?thesis
      using False "1.prems"
      by (subst generateWithRetry.simps)
         (auto simp: tw settled_def rateLimited_def split: sum.splits)
  qed
qed

text \<open>
  Claim C6, as amended. An error is classified as a rate limit exactly when the text
  \<^verbatim>\<open>retryError?.message || String(retryError)\<close> (the message of the error, or the result
  of \<^verbatim>\<open>toString()\<close> when the message is absent or empty) contains one of the substrings
  \<^verbatim>\<open>429\<close>, \<^verbatim>\<open>quota\<close> and \<^verbatim>\<open>Too Many Requests\<close>, letter case included. The retry loop
  calls the completion service for the attempts \<open>0, \<dots>, k\<close>, where \<open>k \<le> 3\<close> counts the
  leading rate-limited attempts among the first three, waits \<open>2 ^ (i + 1)\<close> seconds after
  attempt \<open>i < k\<close>, and settles with the outcome of attempt \<open>k\<close>: the first error that is
  not a rate limit is thrown at once, and so is the error of the fourth attempt. The three
  delays are 2, 4 and 8 seconds.
\<close>

theorem retry_policy:
  "(isRateLimit e \<longleftrightarrow>
      (let description =
             (case err_message e of
                None \<Rightarrow> err_toString e
              | Some m \<Rightarrow> if m = [] then err_toString e else m)
       in (\<exists>p q. description = p @ ''429'' @ q)
          \<or> (\<exists>p q. description = p @ ''quota'' @ q)
          \<or> (\<exists>p q. description = p @ ''Too Many Requests'' @ q)))
   \<and> (let k = length (takeWhile
                    (\<lambda>i. case gen i of Inl x \<Rightarrow> isRateLimit x | Inr r \<Rightarrow> False) [0..<3])
      in generateWithRetry gen 0 =
           (case gen k of Inl x \<Rightarrow> Inl x | Inr r \<Rightarrow> Inr (Some r),
            concat (map (\<lambda>i. [Attempt i, Wait (2 ^ (i + 1) * 1000)]) [0..<k]) @ [Attempt k])
         \<and> k \<le> 3)
   \<and> maxRetries = 3
   \<and> map retryDelay [0..<maxRetries] = [2000, 4000, 8000]"
proof -
  have d: "errorMessage e =
      (case err_message e of
         None \<Rightarrow> err_toString e
       | Some m \<Rightarrow> if m = [] then err_toString e else m)"
    by (simp add: errorMessage_def split: option.splits)
  have rl: "rateLimited gen = (\<lambda>i. case gen i of Inl x \<Rightarrow> isRateLimit x | Inr r \<Rightarrow> False)"
    by (rule ext) (simp add: rateLimited_def)
  have rd: "(\<lambda>i. [Attempt i, Wait (retryDelay i)]) = (\<lambda>i. [Attempt i, Wait (2 ^ (i + 1) * 1000)])"
    by (rule ext) (simp add: retryDelay_def)
  have m3: "maxRetries = 3" by (simp add: maxRetries_def)
  have a: "generateWithRetry gen 0 =
       (settled gen (length (takeWhile (rateLimited gen) [0..<maxRetries])),
        concat (map (\<lambda>i. [Attempt i, Wait (retryDelay i)])
                  [0..<length (takeWhile (rateLimited gen) [0..<maxRetries])])
          @ [Attempt (length (takeWhile (rateLimited gen) [0..<maxRetries]))])"
    using generateWithRetry_from [of 0 gen] by simp
  have b: "length (takeWhile (rateLimited gen) [0..<maxRetries]) \<le> 3"
    using length_takeWhile_le [of "rateLimited gen" "[0..<maxRetries]"] by (simp add: maxRetries_def)
  have c: "map retryDelay [0..<maxRetries] = [2000, 4000, 8000]"
    by (simp add: maxRetries_def retryDelay_def upt_rec numeral_3_eq_3)
  have cls: "isRateLimit e \<longleftrightarrow>
      (let description =
             (case err_message e of
                None \<Rightarrow> err_toString e
              | Some m \<Rightarrow> if m = [] then err_toString e else m)
       in (\<exists>p q. description = p @ ''429'' @ q)
          \<or> (\<exists>p q. description = p @ ''quota'' @ q)
          \<or> (\<exists>p q. description = p @ ''Too Many Requests'' @ q))"
    unfolding isRateLimit_def js_includes_iff d Let_def by (rule refl)
  have loop: "let k = length (takeWhile
                    (\<lambda>i. case gen i of Inl x \<Rightarrow> isRateLimit x | Inr r \<Rightarrow> False) [0..<3])
      in generateWithRetry gen 0 =
           (case gen k of Inl x \<Rightarrow> Inl x | Inr r \<Rightarrow> Inr (Some r),
            concat (map (\<lambda>i. [Attempt i, Wait (2 ^ (i + 1) * 1000)]) [0..<k]) @ [Attempt k])
         \<and> k \<le> 3"
    using a b unfolding rl rd m3 settled_def Let_def by simp
  show ?thesis using cls loop m3 c by blast
qed

text \<open>
  Claim C6 as stated fails in its classification: an error whose description is
  \<^verbatim>\<open>too many requests\<close> in lower case is not classified as a rate limit and is thrown
  after the first attempt, and an error whose description contains \<^verbatim>\<open>429\<close> inside
  another number is classified as one and retried.
\<close>

theorem lower_case_signature_is_not_retried:
  "\<not> isRateLimit \<lparr>err_message = Some ''too many requests'',
                   err_toString = ''Error: too many requests''\<rparr>
   \<and> generateWithRetry
        (\<lambda>k. Inl \<lparr>err_message = Some ''too many requests'',
                   err_toString = ''Error: too many requests''\<rparr> :: js_error + unit) 0
       = (Inl \<lparr>err_message = Some ''too many requests'',
               err_toString = ''Error: too many requests''\<rparr>, [Attempt 0])
   \<and> isRateLimit \<lparr>err_message = Some ''Unknown model gemini-14290'',
                  err_toString = ''Error: Unknown model gemini-14290''\<rparr>"
  by code_simp

text \<open>
  The same loop in the steps of the agent: a rate-limited reply to an attempt below the
  limit sets the timer of \<open>retryDelay\<close>, and when the timer fires the completion service is
  called again, for the next attempt and with the same history; any other failure ends in
  the \<^verbatim>\<open>catch\<close> block of \<^verbatim>\<open>processMessage\<close>, without another call.
\<close>

lemma step_retries_rate_limit:
  "tasks s t = AwaitUpstream c a \<Longrightarrow> isRateLimit e \<Longrightarrow> a < maxRetries \<Longrightarrow>
     trace (step now' (TimerFired t) (step now (UpstreamReply t (Inl e)) s))
       = trace s @ [SetTimeout (retryDelay a), GenerateContentStream (chatHistory s) (writingContext c)]
     \<and> tasks (step now' (TimerFired t) (step now (UpstreamReply t (Inl e)) s)) t
       = AwaitUpstream c (a + 1)"
  by (simp add: onUpstreamReply_def retryLoop_def attemptCall_def emit_def)

lemma step_gives_up:
  "tasks s t = AwaitUpstream c a \<Longrightarrow> \<not> (isRateLimit e \<and> a < maxRetries) \<Longrightarrow>
     step now (UpstreamReply t (Inl e)) s
       = processMessage_finally now t (processMessage_catch c s)"
  by (auto simp: onUpstreamReply_def)

section \<open>The single flight\<close>

lemma handler_frame_refl: "handler_frame s s"
  by (simp add: handler_frame_def)

lemma handler_frame_trans: "handler_frame s s' \<Longrightarrow> handler_frame s' s'' \<Longrightarrow> handler_frame s s''"
  unfolding handler_frame_def by (intro conjI; (simp; fail | blast))

lemma frame_dispose: "handler_frame s (dispose h s)"
  by (auto simp: handler_frame_def handler_defs Let_def)

lemma frame_handleStopGenerating: "handler_frame s (handleStopGenerating h ev s)"
  by (auto simp: handler_frame_def handler_defs Let_def)

lemma frame_handleError: "handler_frame s (handleError h err s)"
  by (auto simp: handler_frame_def handler_defs Let_def)

lemma frame_run_chunk: "handler_frame s (run_chunk h c now s)"
  by (auto simp: handler_frame_def handler_defs Let_def split: option.splits)

lemma frame_run_after_loop: "handler_frame s (snd (run_after_loop h s))"
  by (auto simp: handler_frame_def handler_defs Let_def)

lemma frame_run_catch: "handler_frame s (snd (run_catch h err s))"
  unfolding run_catch_def Let_def snd_conv
  by (rule handler_frame_trans [OF frame_handleError frame_dispose])

lemma frame_fold:
  "(\<And>h s. handler_frame s (f h s)) \<Longrightarrow> handler_frame s (fold f hs s)"
proof (induction hs arbitrary: s)
  case Nil
  then show ?case by (simp add: handler_frame_refl)
next
  case (Cons h hs)
  show ?case
    using handler_frame_trans [OF Cons.prems [of s h] Cons.IH [OF Cons.prems, of "f h s"]]
    by simp
qed

lemma agent_inv_frame: "agent_inv s \<Longrightarrow> handler_frame s s' \<Longrightarrow> agent_inv s'"
  unfolding agent_inv_def handler_frame_def
  by (elim conjE, intro conjI) (simp_all, blast+)

lemma quiet_frame: "quiet t s \<Longrightarrow> handler_frame s s' \<Longrightarrow> quiet t s'"
  unfolding quiet_def handler_frame_def
  by (elim conjE, intro conjI) (simp_all, blast+)

lemma inv_attemptCall:
  "quiet t s \<Longrightarrow> messageListener s = isProcessing s \<Longrightarrow> agent_inv (attemptCall c attempt t s)"
  by (auto simp: quiet_def agent_inv_def attemptCall_def emit_def)

lemma inv_startGenerating:
  "quiet t s \<Longrightarrow> messageListener s = isProcessing s \<Longrightarrow> agent_inv (startGenerating now c t s)"
  by (auto simp: quiet_def agent_inv_def attemptCall_def startGenerating_def rejected_def
        emit_def Let_def)

lemma inv_backoff:
  "quiet t s \<Longrightarrow> messageListener s = isProcessing s \<Longrightarrow>
     agent_inv ((emit (SetTimeout d) s)\<lparr>tasks := (tasks s)(t := AwaitBackoff c a)\<rparr>)"
  by (auto simp: quiet_def agent_inv_def emit_def)

lemma inv_processMessage:
  "quiet t s \<Longrightarrow> messageListener s \<Longrightarrow> agent_inv (processMessage now e t s)"
  by (auto simp: quiet_def agent_inv_def attemptCall_def startGenerating_def processMessage_def
        rejected_def emit_def Let_def)

lemma inv_drainQueue:
  "quiet t s \<Longrightarrow> \<not> isProcessing s \<Longrightarrow> agent_inv (drainQueue now t (messageQueue s) s)"
proof (cases "messageQueue s")
  case Nil
  assume "quiet t s" "\<not> isProcessing s"
  then show ?thesis using Nil by (auto simp: quiet_def agent_inv_def)
next
  case (Cons e q)
  assume q: "quiet t s" and "\<not> isProcessing s"
  have l: "messageListener s" using q Cons by (auto simp: quiet_def)
  have "quiet t (s\<lparr>messageQueue := q\<rparr>)" using q l by (simp add: quiet_def)
  from inv_processMessage [OF this] l q show ?thesis
    using Cons by (simp add: quiet_def)
qed

lemma inv_processMessage_finally: "quiet t s \<Longrightarrow> agent_inv (processMessage_finally now t s)"
proof -
  assume q: "quiet t s"
  have "quiet t (s\<lparr>isProcessing := False\<rparr>)" using q by (simp add: quiet_def)
  from inv_drainQueue [OF this, of now] show ?thesis
    by (simp add: processMessage_finally_def)
qed

lemma quiet_processMessage_catch: "quiet t s \<Longrightarrow> quiet t (processMessage_catch c s)"
  by (simp add: quiet_def processMessage_catch_def emit_def)

lemma quiet_processMessage_afterRun: "quiet t (snd rs) \<Longrightarrow> quiet t (processMessage_afterRun c rs)"
  by (auto simp: processMessage_afterRun_def quiet_processMessage_catch split: sum.splits)
     (simp add: quiet_def)

lemma inv_quiet_other:
  assumes "agent_inv s" "tasks s t \<noteq> Idle" "\<forall>c h. tasks s t \<noteq> AwaitChunk c h"
  shows "quiet t s"
proof -
  have one: "\<forall>t'. t' \<noteq> t \<longrightarrow> tasks s t' = Idle"
    using assms(1,2) unfolding agent_inv_def by blast
  have all: "is_done (heap s h)" for h
  proof (rule ccontr)
    assume "\<not> is_done (heap s h)"
    then obtain t' c' where t': "tasks s t' = AwaitChunk c' h"
      using assms(1) unfolding agent_inv_def by blast
    then have "t' = t" using one by force
    with t' assms(3) show False by simp
  qed
  have rest: "genai s" "t < nextTask s" "\<not> messageListener s \<longrightarrow> messageQueue s = []"
    "distinct (handlers s)" "\<forall>h \<in> set (handlers s). h < nextHandler s"
    using assms(1,2) unfolding agent_inv_def by blast+
  show ?thesis unfolding quiet_def using one all rest by blast
qed

lemma quiet_after_run:
  assumes "agent_inv s" "tasks s t = AwaitChunk c h" "handler_frame s s'" "is_done (heap s' h)"
  shows "quiet t s'"
proof -
  have nd: "is_done (heap s h')" if "h' \<noteq> h" for h'
  proof (rule ccontr)
    assume "\<not> is_done (heap s h')"
    then obtain t' c' where t': "tasks s t' = AwaitChunk c' h'"
      using assms(1) unfolding agent_inv_def by blast
    then have "t' = t" using assms(1,2) unfolding agent_inv_def by (metis pc.distinct(7))
    with t' assms(2) that show False by simp
  qed
  have all: "\<forall>h'. is_done (heap s' h')"
    using nd assms(3,4) unfolding handler_frame_def by metis
  have one: "\<forall>t'. t' \<noteq> t \<longrightarrow> tasks s t' = Idle"
    using assms(1,2) unfolding agent_inv_def by (metis pc.distinct(7))
  have lt: "t < nextTask s" using assms(1,2) unfolding agent_inv_def by (metis pc.distinct(7))
  have q: "\<not> messageListener s \<longrightarrow> messageQueue s = []"
    using assms(1) unfolding agent_inv_def by blast
  have g: "genai s" "distinct (handlers s)" "\<forall>h \<in> set (handlers s). h < nextHandler s"
    using assms(1) unfolding agent_inv_def by blast+
  show ?thesis
    unfolding quiet_def using all one lt q g assms(3) unfolding handler_frame_def
    by (elim conjE, intro conjI) (simp_all, blast+)
qed

lemma done_run_after_loop: "is_done (heap (snd (run_after_loop h s)) h)"
  by (simp add: handler_defs Let_def)

lemma done_run_catch: "is_done (heap (snd (run_catch h err s)) h)"
  by (simp add: handler_defs Let_def)

lemma inv_startRun:
  assumes "agent_inv s" "tasks s t = AwaitUpstream c a"
  shows "agent_inv (startRun c t s)"
proof -
  have q: "quiet t s" using inv_quiet_other [OF assms(1)] assms(2) by simp
  have p: "messageListener s \<longrightarrow> isProcessing s" "\<not> messageListener s \<longrightarrow> \<not> isProcessing s"
    "\<not> isProcessing s \<longrightarrow> messageQueue s = []"
    using assms unfolding agent_inv_def by (metis pc.distinct(3))+
  show ?thesis
    using q p unfolding quiet_def agent_inv_def startRun_def newHandler_def Let_def
    by (elim conjE, intro conjI) (auto simp: less_Suc_eq)
qed

lemma inv_flag: "agent_inv s \<Longrightarrow> tasks s t \<noteq> Idle \<Longrightarrow> messageListener s = isProcessing s"
  unfolding agent_inv_def by blast

lemma quiet_run_of_undefined:
  "quiet t s \<Longrightarrow>
     quiet t (snd (run_catch (nextHandler s) err
       ((newHandler m s)\<lparr>handlers := handlers (newHandler m s) @ [nextHandler s]\<rparr>)))"
  by (auto simp: quiet_def handler_defs Let_def)

lemma inv_retryLoop:
  assumes "quiet t s" "messageListener s = isProcessing s"
  shows "agent_inv (retryLoop now c a t s)"
proof (cases "a \<le> maxRetries")
  case True
  then show ?thesis using inv_attemptCall [OF assms] by (simp add: retryLoop_def)
next
  case False
  then show ?thesis
    using inv_processMessage_finally [OF quiet_processMessage_afterRun [OF quiet_run_of_undefined [OF assms(1)]]]
    by (simp add: retryLoop_def Let_def)
qed

lemma inv_onUpstreamReply:
  assumes "agent_inv s" "tasks s t = AwaitUpstream c a"
  shows "agent_inv (onUpstreamReply now r c a t s)"
proof -
  have q: "quiet t s" using inv_quiet_other [OF assms(1)] assms(2) by simp
  have f: "messageListener s = isProcessing s" using inv_flag [OF assms(1), of t] assms(2) by simp
  show ?thesis
    using inv_startRun [OF assms] inv_backoff [OF q f]
      inv_processMessage_finally [OF quiet_processMessage_catch [OF q]]
    by (simp add: onUpstreamReply_def split: sum.splits)
qed

lemma inv_run_returns:
  assumes "agent_inv s" "tasks s t = AwaitChunk c h" "handler_frame s (snd rs)" "is_done (heap (snd rs) h)"
  shows "agent_inv (processMessage_finally now t (processMessage_afterRun c rs))"
  using inv_processMessage_finally [OF quiet_processMessage_afterRun [OF quiet_after_run [OF assms]]] .

lemma inv_handleMessage: "agent_inv s \<Longrightarrow> messageListener s \<Longrightarrow> agent_inv (handleMessage now e s)"
proof -
  assume i: "agent_inv s" and l: "messageListener s"
  have enq: "isProcessing s \<Longrightarrow> agent_inv (s\<lparr>messageQueue := messageQueue s @ [e]\<rparr>)"
    using i by (simp add: agent_inv_def)
  have start: "agent_inv (processMessage now e (nextTask s) (s\<lparr>nextTask := Suc (nextTask s)\<rparr>))"
    if "\<not> isProcessing s"
  proof -
    have idle: "\<forall>t. tasks s t = Idle" using i l that unfolding agent_inv_def by blast
    then have "\<forall>h. is_done (heap s h)" using i unfolding agent_inv_def by (metis pc.distinct(7))
    then have "quiet (nextTask s) (s\<lparr>nextTask := Suc (nextTask s)\<rparr>)"
      using i l idle unfolding agent_inv_def quiet_def by simp
    from inv_processMessage [OF this] l show ?thesis by simp
  qed
  show ?thesis
    using i enq start by (simp add: handleMessage_def split: option.splits)
qed

lemma inv_agentDispose: "agent_inv s \<Longrightarrow> agent_inv (agentDispose s)"
proof -
  assume i: "agent_inv s"
  let ?s1 = "emit DisconnectUser (s\<lparr>messageListener := False\<rparr>)"
  let ?s2 = "fold dispose (handlers ?s1) ?s1"
  have f: "handler_frame ?s1 ?s2"
    by (rule frame_fold) (rule frame_dispose)
  have t: "tasks ?s2 = tasks s" "nextTask ?s2 = nextTask s" "genai ?s2 = genai s"
    "\<not> messageListener ?s2"
    using f by (simp_all add: handler_frame_def emit_def)
  have d: "is_done (heap s h) \<Longrightarrow> is_done (heap ?s2 h)" for h
    using f by (simp add: handler_frame_def emit_def)
  have live: "\<exists>t c. tasks s t = AwaitChunk c h" if "\<not> is_done (heap ?s2 h)" for h
    using i d that unfolding agent_inv_def by blast
  have a: "genai s" "\<forall>t t'. tasks s t \<noteq> Idle \<longrightarrow> tasks s t' \<noteq> Idle \<longrightarrow> t = t'"
    "\<forall>t. tasks s t \<noteq> Idle \<longrightarrow> t < nextTask s"
    using i unfolding agent_inv_def by blast+
  show ?thesis
    unfolding agentDispose_def Let_def agent_inv_def
    using a live by (simp add: t)
qed

lemma inv_step: "agent_inv s \<Longrightarrow> agent_inv (step now i s)"
proof (cases i)
  case (MessageNew e)
  assume "agent_inv s"
  then show ?thesis using MessageNew inv_handleMessage by simp
next
  case (IndicatorStop e)
  assume i: "agent_inv s"
  have "handler_frame s (fold (\<lambda>h. handleStopGenerating h e) (stopListeners s) s)"
    by (rule frame_fold) (rule frame_handleStopGenerating)
  from agent_inv_frame [OF i this] show ?thesis using IndicatorStop by simp
next
  case (TimerFired t)
  assume i: "agent_inv s"
  show ?thesis
  proof (cases "tasks s t")
    case (AwaitSpacing c)
    then have "quiet t s" "messageListener s = isProcessing s"
      using inv_quiet_other [OF i, of t] inv_flag [OF i, of t] by simp_all
    from inv_startGenerating [OF this] show ?thesis using TimerFired AwaitSpacing by simp
  next
    case (AwaitBackoff c a)
    then have "quiet t s" "messageListener s = isProcessing s"
      using inv_quiet_other [OF i, of t] inv_flag [OF i, of t] by simp_all
    from inv_retryLoop [OF this] show ?thesis using TimerFired AwaitBackoff by simp
  qed (use i TimerFired in simp_all)
next
  case (UpstreamReply t r)
  assume i: "agent_inv s"
  show ?thesis
    using i UpstreamReply inv_onUpstreamReply [OF i] by (cases "tasks s t") simp_all
next
  case (StreamChunk t x)
  assume i: "agent_inv s"
  show ?thesis
  proof (cases "tasks s t")
    case (AwaitChunk c h)
    show ?thesis
      using StreamChunk AwaitChunk
        inv_run_returns [OF i AwaitChunk frame_run_after_loop done_run_after_loop]
        agent_inv_frame [OF i frame_run_chunk]
      by simp
  qed (use i StreamChunk in simp_all)
next
  case (StreamEnd t)
  assume i: "agent_inv s"
  show ?thesis
  proof (cases "tasks s t")
    case (AwaitChunk c h)
    show ?thesis
      using StreamEnd AwaitChunk
        inv_run_returns [OF i AwaitChunk frame_run_after_loop done_run_after_loop]
      by simp
  qed (use i StreamEnd in simp_all)
next
  case (StreamThrow t err)
  assume i: "agent_inv s"
  show ?thesis
  proof (cases "tasks s t")
    case (AwaitChunk c h)
    show ?thesis
      using StreamThrow AwaitChunk
        inv_run_returns [OF i AwaitChunk frame_run_catch done_run_catch]
      by simp
  qed (use i StreamThrow in simp_all)
next
  case AgentDispose
  assume "agent_inv s"
  then show ?thesis using AgentDispose inv_agentDispose by simp
next
  case (TransportFault w)
  assume "agent_inv s"
  then show ?thesis using TransportFault by (simp add: agent_inv_def)
qed

lemma inv_initAgent: "agent_inv (initAgent uid c t0)"
  by (simp add: agent_inv_def initAgent_def)

lemma inv_exec: "agent_inv s \<Longrightarrow> agent_inv (exec ins s)"
  unfolding exec_def
  by (induction ins arbitrary: s) (auto simp: inv_step)

lemma filter_unique_length:
  "distinct xs \<Longrightarrow> (\<And>x y. x \<in> set xs \<Longrightarrow> y \<in> set xs \<Longrightarrow> P x \<Longrightarrow> P y \<Longrightarrow> x = y) \<Longrightarrow>
     length (filter P xs) \<le> 1"
proof (induction xs)
  case Nil
  then show ?case by simp
next
  case (Cons a xs)
  show ?case
  proof (cases "P a")
    case True
    have "filter P xs = []"
      using Cons.prems True by (auto simp: filter_empty_conv)
    with True show ?thesis by simp
  next
    case False
    with Cons show ?thesis by simp
  qed
qed

lemma inv_live_unique:
  "agent_inv s \<Longrightarrow> \<not> is_done (heap s h) \<Longrightarrow> \<not> is_done (heap s h') \<Longrightarrow> h = h'"
proof -
  assume i: "agent_inv s" and a: "\<not> is_done (heap s h)" and b: "\<not> is_done (heap s h')"
  obtain t c where t: "tasks s t = AwaitChunk c h" using i a unfolding agent_inv_def by blast
  obtain t' c' where t': "tasks s t' = AwaitChunk c' h'" using i b unfolding agent_inv_def by blast
  have "t = t'" using i t t' unfolding agent_inv_def by (metis pc.distinct(7))
  with t t' show ?thesis by simp
qed

text \<open>
  Claim C1. Whatever the inputs are (inbound messages, stop signals, timers, replies of
  the completion service, chunks, ends and exceptions of its streams, a disposal of the
  agent) and in whatever order they come, in every state the agent reaches from its initial
  state at most one handler is not done, among the handlers the agent holds and among all
  handlers ever constructed, and at most one invocation of \<^verbatim>\<open>handleMessage\<close> is in
  flight.
\<close>

theorem single_flight:
  "length (filter (\<lambda>h. \<not> is_done (heap (exec ins (initAgent uid c t0)) h))
             (handlers (exec ins (initAgent uid c t0)))) \<le> 1
   \<and> length (filter (\<lambda>h. \<not> is_done (heap (exec ins (initAgent uid c t0)) h))
               [0..<nextHandler (exec ins (initAgent uid c t0))]) \<le> 1
   \<and> length (filter (\<lambda>t. tasks (exec ins (initAgent uid c t0)) t \<noteq> Idle)
               [0..<nextTask (exec ins (initAgent uid c t0))]) \<le> 1"
proof -
  let ?s = "exec ins (initAgent uid c t0)"
  have i: "agent_inv ?s" by (rule inv_exec [OF inv_initAgent])
  have d: "distinct (handlers ?s)" using i unfolding agent_inv_def by blast
  have one: "tasks ?s t \<noteq> Idle \<Longrightarrow> tasks ?s t' \<noteq> Idle \<Longrightarrow> t = t'" for t t'
    using i unfolding agent_inv_def by blast
  have h1: "length (filter (\<lambda>h. \<not> is_done (heap ?s h)) (handlers ?s)) \<le> 1"
    by (rule filter_unique_length [OF d]) (rule inv_live_unique [OF i])
  have h2: "length (filter (\<lambda>h. \<not> is_done (heap ?s h)) [0..<nextHandler ?s]) \<le> 1"
    by (rule filter_unique_length) (simp, rule inv_live_unique [OF i])
  have h3: "length (filter (\<lambda>t. tasks ?s t \<noteq> Idle) [0..<nextTask ?s]) \<le> 1"
    by (rule filter_unique_length) (simp, rule one)
  show ?thesis using h1 h2 h3 by blast
qed

section \<open>Arrival order and the history\<close>

lemma spacing_single:
  "\<forall>t'. t' \<noteq> t \<longrightarrow> tasks s t' = Idle \<Longrightarrow>
     spacing s = (case tasks s t of AwaitSpacing c \<Rightarrow> 1 | _ \<Rightarrow> 0)"
proof -
  assume a: "\<forall>t'. t' \<noteq> t \<longrightarrow> tasks s t' = Idle"
  have "(\<exists>t' c. tasks s t' = AwaitSpacing c) = (\<exists>c. tasks s t = AwaitSpacing c)"
    using a by (metis pc.distinct(1))
  then show ?thesis by (auto simp: spacing_def split: pc.splits)
qed

lemma busy_single:
  "\<forall>t'. t' \<noteq> t \<longrightarrow> tasks s t' = Idle \<Longrightarrow> busy s = (if tasks s t = Idle then 0 else 1)"
proof -
  assume a: "\<forall>t'. t' \<noteq> t \<longrightarrow> tasks s t' = Idle"
  have "(\<exists>t'. tasks s t' \<noteq> Idle) = (tasks s t \<noteq> Idle)"
    using a by metis
  then show ?thesis by (simp add: busy_def)
qed

lemma inv_others_idle: "agent_inv s \<Longrightarrow> tasks s t \<noteq> Idle \<Longrightarrow> \<forall>t'. t' \<noteq> t \<longrightarrow> tasks s t' = Idle"
  unfolding agent_inv_def by blast

lemma quiet_others_idle: "quiet t s \<Longrightarrow> \<forall>t'. t' \<noteq> t \<longrightarrow> tasks s t' = Idle"
  unfolding quiet_def by blast

lemma isUser_userTurn [simp]: "isUser (userTurn e)" "\<not> isModel (userTurn e)"
  by (simp_all add: isUser_def isModel_def userTurn_def)

lemma isModel_model [simp]:
  "isModel \<lparr>role = ''model'', parts = p\<rparr>" "\<not> isUser \<lparr>role = ''model'', parts = p\<rparr>"
  by (simp_all add: isUser_def isModel_def)

lemma hist_frame: "history_inv A s \<Longrightarrow> handler_frame s s' \<Longrightarrow> history_inv A s'"
  by (simp add: history_inv_def handler_frame_def spacing_def busy_def)

text \<open>processMessage from a state in which only task t may be in flight\<close>

lemma hist_processMessage:
  assumes o: "\<forall>t'. t' \<noteq> t \<longrightarrow> tasks s t' = Idle"
    and l: "messageListener s"
    and u: "filter isUser (chatHistory s) @ userTurn e # map userTurn (messageQueue s) = map userTurn A"
    and n: "Suc (apiCallCount s + length (messageQueue s)) = length A"
    and m: "length (filter isModel (chatHistory s)) \<le> length (filter isUser (chatHistory s))"
    and em: "\<lparr>role = ''model'', parts = [[]]\<rparr> \<notin> set (chatHistory s)"
    and pf: "pendingFault s = None"
  shows "history_inv A (processMessage now e t s)"
proof -
  let ?s' = "processMessage now e t s"
  have o': "\<forall>t'. t' \<noteq> t \<longrightarrow> tasks ?s' t' = Idle"
    using o pf by (simp add: processMessage_def startGenerating_def attemptCall_def emit_def Let_def)
  have f: "messageListener ?s'" "messageQueue ?s' = messageQueue s"
    "chatHistory ?s' = chatHistory s @ [userTurn e]" "pendingFault ?s' = None"
    using l pf by (simp_all add: processMessage_def startGenerating_def attemptCall_def emit_def Let_def userTurn_def)
  have c: "apiCallCount ?s' + spacing ?s' = Suc (apiCallCount s)" "busy ?s' = 1"
    unfolding spacing_single [OF o'] busy_single [OF o']
    using pf by (simp_all add: processMessage_def startGenerating_def attemptCall_def emit_def Let_def)
  have em': "\<lparr>role = ''model'', parts = [[]]\<rparr> \<notin> set (chatHistory ?s')"
    using em unfolding f by (simp add: userTurn_def)
  show ?thesis
    unfolding history_inv_def using f c u n m em' by simp
qed

lemma hist_drainQueue:
  assumes q: "quiet t s" and h: "history_quiet A s" and np: "\<not> isProcessing s"
  shows "history_inv A (drainQueue now t (messageQueue s) s)"
proof (cases "messageQueue s")
  case Nil
  have "\<forall>t'. tasks (s\<lparr>tasks := (tasks s)(t := Idle)\<rparr>) t' = Idle"
    using quiet_others_idle [OF q] by simp
  then have "spacing (s\<lparr>tasks := (tasks s)(t := Idle)\<rparr>) = 0" "busy (s\<lparr>tasks := (tasks s)(t := Idle)\<rparr>) = 0"
    by (simp_all add: spacing_def busy_def)
  then show ?thesis using h np Nil by (auto simp: history_inv_def history_quiet_def)
next
  case (Cons e es)
  have g: "genai s" using q by (simp add: quiet_def)
  have "history_inv A (processMessage now e t (s\<lparr>messageQueue := es\<rparr>))"
    using quiet_others_idle [OF q] h Cons
    by (intro hist_processMessage) (simp_all add: history_quiet_def)
  then show ?thesis using Cons g by simp
qed

lemma hist_finally:
  assumes q: "quiet t s" and h: "history_quiet A s"
  shows "history_inv A (processMessage_finally now t s)"
proof -
  have "quiet t (s\<lparr>isProcessing := False\<rparr>)" "history_quiet A (s\<lparr>isProcessing := False\<rparr>)"
    "\<not> isProcessing (s\<lparr>isProcessing := False\<rparr>)"
    using q h by (simp_all add: quiet_def history_quiet_def)
  from hist_drainQueue [OF this, of now] show ?thesis
    by (simp add: processMessage_finally_def)
qed

lemma hist_busy_quiet:
  assumes "history_inv A s" "\<forall>t'. t' \<noteq> t \<longrightarrow> tasks s t' = Idle" "tasks s t \<noteq> Idle"
    "\<forall>c. tasks s t \<noteq> AwaitSpacing c"
  shows "history_quiet A s \<and> length (filter isModel (chatHistory s)) < length (filter isUser (chatHistory s))"
proof -
  have "spacing s = 0" "busy s = 1"
    using assms(3,4) unfolding spacing_single [OF assms(2)] busy_single [OF assms(2)]
    by (simp_all split: pc.splits)
  then show ?thesis using assms(1) by (simp add: history_inv_def history_quiet_def)
qed

lemma hist_quiet_frame: "history_quiet A s \<Longrightarrow> handler_frame s s' \<Longrightarrow> history_quiet A s'"
  by (simp add: history_quiet_def handler_frame_def)

lemma hist_afterRun:
  assumes "history_quiet A (snd rs)"
    "length (filter isModel (chatHistory (snd rs))) < length (filter isUser (chatHistory (snd rs)))"
  shows "history_quiet A (processMessage_afterRun c rs)"
  using assms
  by (auto simp: processMessage_afterRun_def processMessage_catch_def emit_def history_quiet_def
      split: sum.splits)

lemma hist_catch: "history_quiet A s \<Longrightarrow> history_quiet A (processMessage_catch c s)"
  by (simp add: processMessage_catch_def emit_def history_quiet_def)

text \<open>a task moves from one wait to another without touching the bookkeeping\<close>

lemma hist_retask:
  assumes "history_inv A s" "\<forall>t'. t' \<noteq> t \<longrightarrow> tasks s t' = Idle" "tasks s t \<noteq> Idle"
    "\<forall>c. tasks s t \<noteq> AwaitSpacing c" "p \<noteq> Idle" "\<forall>c. p \<noteq> AwaitSpacing c"
    "tasks s' = (tasks s)(t := p)" "messageListener s' = messageListener s"
    "chatHistory s' = chatHistory s" "messageQueue s' = messageQueue s"
    "apiCallCount s' = apiCallCount s" "pendingFault s' = pendingFault s"
    "isProcessing s' = isProcessing s"
  shows "history_inv A s'"
proof -
  have o': "\<forall>t'. t' \<noteq> t \<longrightarrow> tasks s' t' = Idle" using assms(2,7) by simp
  have "spacing s = 0" "busy s = 1" "spacing s' = 0" "busy s' = 1"
    using assms(3-7) unfolding spacing_single [OF assms(2)] busy_single [OF assms(2)]
      spacing_single [OF o'] busy_single [OF o']
    by (simp_all split: pc.splits)
  then show ?thesis using assms(1,8-13) by (simp add: history_inv_def)
qed

lemma hist_startGenerating:
  assumes "history_inv A s" "\<forall>t'. t' \<noteq> t \<longrightarrow> tasks s t' = Idle" "tasks s t = AwaitSpacing c"
  shows "history_inv A (startGenerating now c t s)"
proof -
  let ?s' = "startGenerating now c t s"
  have pf: "pendingFault s = None" using assms(1) by (simp add: history_inv_def)
  have o': "\<forall>t'. t' \<noteq> t \<longrightarrow> tasks ?s' t' = Idle"
    using assms(2) pf by (simp add: startGenerating_def attemptCall_def emit_def Let_def)
  have "spacing s = 1" "busy s = 1" "spacing ?s' = 0" "busy ?s' = 1"
    using assms(3) pf unfolding spacing_single [OF assms(2)] busy_single [OF assms(2)]
      spacing_single [OF o'] busy_single [OF o']
    by (simp_all add: startGenerating_def attemptCall_def emit_def Let_def)
  then show ?thesis using assms(1) pf
    by (simp add: history_inv_def startGenerating_def attemptCall_def emit_def Let_def)
qed

lemma handleMessage_cases:
  "genai s \<Longrightarrow>
   handleMessage now e s =
     (if accepted (client_user_id s) e
      then (if isProcessing s then s\<lparr>messageQueue := messageQueue s @ [e]\<rparr>
            else processMessage now e (nextTask s) (s\<lparr>nextTask := Suc (nextTask s)\<rparr>))
      else s)"
  by (auto simp: handleMessage_def accepted_def split: option.splits)

lemma hist_handleMessage:
  assumes i: "agent_inv s" and h: "history_inv A s"
  shows "history_inv (A @ acceptedOf (client_user_id s) (now, MessageNew e)) (handleMessage now e s)"
proof (cases "accepted (client_user_id s) e")
  case False
  then show ?thesis using i h by (simp add: handleMessage_cases agent_inv_def)
next
  case True
  have g: "genai s" and l: "messageListener s"
    using i h by (simp_all add: agent_inv_def history_inv_def)
  show ?thesis
  proof (cases "isProcessing s")
    case p: True
    have "history_inv (A @ [e]) (s\<lparr>messageQueue := messageQueue s @ [e]\<rparr>)"
      using h by (simp add: history_inv_def spacing_def busy_def)
    then show ?thesis using True p g by (simp add: handleMessage_cases)
  next
    case p: False
    have idle: "\<forall>t. tasks s t = Idle" using i l p unfolding agent_inv_def by blast
    have q: "messageQueue s = []" using i p unfolding agent_inv_def by blast
    have sb: "spacing s = 0" "busy s = 0" using idle by (simp_all add: spacing_def busy_def)
    have u: "filter isUser (chatHistory s) @ userTurn e # map userTurn (messageQueue s) = map userTurn (A @ [e])"
      and n: "Suc (apiCallCount s + length (messageQueue s)) = length (A @ [e])"
      and m: "length (filter isModel (chatHistory s)) \<le> length (filter isUser (chatHistory s))"
      using h q sb by (auto simp: history_inv_def)
    have em: "\<lparr>role = ''model'', parts = [[]]\<rparr> \<notin> set (chatHistory s)"
      and pf: "pendingFault s = None"
      using h by (simp_all add: history_inv_def)
    have "history_inv (A @ [e]) (processMessage now e (nextTask s) (s\<lparr>nextTask := Suc (nextTask s)\<rparr>))"
      using idle l u n m em pf by (intro hist_processMessage) simp_all
    then show ?thesis using True p g by (simp add: handleMessage_cases)
  qed
qed

lemma hist_run_returns:
  assumes i: "agent_inv s" and h: "history_inv A s" and t: "tasks s t = AwaitChunk c hh"
    and f: "handler_frame s (snd rs)" and d: "is_done (heap (snd rs) hh)"
  shows "history_inv A (processMessage_finally now t (processMessage_afterRun c rs))"
proof -
  have o: "\<forall>t'. t' \<noteq> t \<longrightarrow> tasks s t' = Idle" using inv_others_idle [OF i, of t] t by simp
  have b: "history_quiet A s"
    "length (filter isModel (chatHistory s)) < length (filter isUser (chatHistory s))"
    using hist_busy_quiet [OF h o] t by simp_all
  have b': "history_quiet A (snd rs)"
    "length (filter isModel (chatHistory (snd rs))) < length (filter isUser (chatHistory (snd rs)))"
    using b f by (simp_all add: history_quiet_def handler_frame_def)
  show ?thesis
    using hist_finally [OF quiet_processMessage_afterRun [OF quiet_after_run [OF i t f d]]
        hist_afterRun [OF b']] .
qed

lemma hist_retryLoop:
  assumes i: "agent_inv s" and h: "history_inv A s" and t: "tasks s t = AwaitBackoff c a"
  shows "history_inv A (retryLoop now c (a + 1) t s)"
proof -
  have o: "\<forall>t'. t' \<noteq> t \<longrightarrow> tasks s t' = Idle" using inv_others_idle [OF i, of t] t by simp
  have q: "quiet t s" using inv_quiet_other [OF i, of t] t by simp
  show ?thesis
  proof (cases "a + 1 \<le> maxRetries")
    case True
    have "history_inv A (attemptCall c (a + 1) t s)"
      by (rule hist_retask [OF h o, where p = "AwaitUpstream c (a + 1)"])
         (simp_all add: t attemptCall_def emit_def)
    then show ?thesis using True by (simp add: retryLoop_def)
  next
    case False
    let ?s2 = "(newHandler (channelMessage c) s)\<lparr>handlers := handlers (newHandler (channelMessage c) s) @ [nextHandler s]\<rparr>"
    let ?rs = "run_catch (nextHandler s) notIterable ?s2"
    have b: "history_quiet A s"
      "length (filter isModel (chatHistory s)) < length (filter isUser (chatHistory s))"
      using hist_busy_quiet [OF h o] t by simp_all
    have b': "history_quiet A (snd ?rs)"
      "length (filter isModel (chatHistory (snd ?rs))) < length (filter isUser (chatHistory (snd ?rs)))"
      using b by (simp_all add: history_quiet_def handler_defs Let_def)
    have "history_inv A (processMessage_finally now t (processMessage_afterRun c ?rs))"
      using hist_finally [OF quiet_processMessage_afterRun [OF quiet_run_of_undefined [OF q]]
          hist_afterRun [OF b']] .
    then show ?thesis using False by (simp add: retryLoop_def Let_def)
  qed
qed

lemma hist_onUpstreamReply:
  assumes i: "agent_inv s" and h: "history_inv A s" and t: "tasks s t = AwaitUpstream c a"
  shows "history_inv A (onUpstreamReply now r c a t s)"
proof -
  have o: "\<forall>t'. t' \<noteq> t \<longrightarrow> tasks s t' = Idle" using inv_others_idle [OF i, of t] t by simp
  have q: "quiet t s" using inv_quiet_other [OF i, of t] t by simp
  have b: "history_quiet A s" using hist_busy_quiet [OF h o] t by simp
  have 1: "history_inv A (startRun c t s)"
    by (rule hist_retask [OF h o, where p = "AwaitChunk c (nextHandler s)"])
       (simp_all add: t startRun_def newHandler_def Let_def)
  have 2: "history_inv A ((emit (SetTimeout d) s)\<lparr>tasks := (tasks s)(t := AwaitBackoff c a)\<rparr>)" for d
    by (rule hist_retask [OF h o, where p = "AwaitBackoff c a"])
       (simp_all add: t emit_def)
  have 3: "history_inv A (processMessage_finally now t (processMessage_catch c s))"
    using hist_finally [OF quiet_processMessage_catch [OF q] hist_catch [OF b]] .
  show ?thesis using 1 2 3 by (simp add: onUpstreamReply_def split: sum.splits)
qed

lemma hist_step:
  assumes i: "agent_inv s" and h: "history_inv A s" and nd: "inp \<noteq> AgentDispose"
    and nf: "\<not> isFault (now, inp)"
  shows "history_inv (A @ acceptedOf (client_user_id s) (now, inp)) (step now inp s)"
proof (cases inp)
  case (MessageNew e)
  have "messageListener s" using h by (simp add: history_inv_def)
  then show ?thesis using MessageNew hist_handleMessage [OF i h] by simp
next
  case (IndicatorStop e)
  have "handler_frame s (fold (\<lambda>h. handleStopGenerating h e) (stopListeners s) s)"
    by (rule frame_fold) (rule frame_handleStopGenerating)
  from hist_frame [OF h this] show ?thesis using IndicatorStop by simp
next
  case (TimerFired t)
  show ?thesis
  proof (cases "tasks s t")
    case (AwaitSpacing c)
    have o: "\<forall>t'. t' \<noteq> t \<longrightarrow> tasks s t' = Idle"
      using inv_others_idle [OF i, of t] AwaitSpacing by simp
    from hist_startGenerating [OF h o AwaitSpacing] show ?thesis
      using TimerFired AwaitSpacing by simp
  next
    case (AwaitBackoff c a)
    from hist_retryLoop [OF i h AwaitBackoff] show ?thesis
      using TimerFired AwaitBackoff by simp
  qed (use h TimerFired in simp_all)
next
  case (UpstreamReply t r)
  show ?thesis
    using h UpstreamReply hist_onUpstreamReply [OF i h] by (cases "tasks s t") simp_all
next
  case (StreamChunk t x)
  show ?thesis
  proof (cases "tasks s t")
    case (AwaitChunk c hh)
    show ?thesis
      using StreamChunk AwaitChunk
        hist_run_returns [OF i h AwaitChunk frame_run_after_loop done_run_after_loop]
        hist_frame [OF h frame_run_chunk]
      by simp
  qed (use h StreamChunk in simp_all)
next
  case (StreamEnd t)
  show ?thesis
  proof (cases "tasks s t")
    case (AwaitChunk c hh)
    show ?thesis
      using StreamEnd AwaitChunk
        hist_run_returns [OF i h AwaitChunk frame_run_after_loop done_run_after_loop]
      by simp
  qed (use h StreamEnd in simp_all)
next
  case (StreamThrow t err)
  show ?thesis
  proof (cases "tasks s t")
    case (AwaitChunk c hh)
    show ?thesis
      using StreamThrow AwaitChunk
        hist_run_returns [OF i h AwaitChunk frame_run_catch done_run_catch]
      by simp
  qed (use h StreamThrow in simp_all)
next
  case AgentDispose
  then show ?thesis using nd by simp
next
  case (TransportFault w)
  then show ?thesis using nf by simp
qed

lemma calls_append [simp]: "calls (xs @ ys) = calls xs @ calls ys"
  by (simp add: calls_def)

lemma calls_simps [simp]:
  "calls [] = []"
  "calls (GenerateContentStream contents c # es) = contents # calls es"
  "calls (SendMessage m # es) = calls es"
  "calls (SendEvent ev # es) = calls es"
  "calls (PartialUpdateMessage m x # es) = calls es"
  "calls (SetTimeout d # es) = calls es"
  "calls (DisconnectUser # es) = calls es"
  by (simp_all add: calls_def)

lemma lastTurn_snoc [simp]: "lastTurn (hist @ [u]) = Some u"
  by (simp add: lastTurn_def)

lemma call_inv_single:
  assumes "\<forall>t'. t' \<noteq> t \<longrightarrow> tasks s t' = Idle"
  shows "call_inv s \<longleftrightarrow>
     (case tasks s t of
        AwaitBackoff c a \<Rightarrow> False
      | AwaitSpacing c \<Rightarrow> (\<exists>hist u. chatHistory s = hist @ [u] \<and> isUser u
               \<and> map lastTurn (calls (trace s)) = map Some (filter isUser hist))
      | _ \<Rightarrow> map lastTurn (calls (trace s)) = map Some (filter isUser (chatHistory s)))"
proof -
  have a: "(\<exists>t' c. tasks s t' = AwaitSpacing c) = (\<exists>c. tasks s t = AwaitSpacing c)"
    using assms by (metis pc.distinct(1))
  have b: "(\<forall>t' c a. tasks s t' \<noteq> AwaitBackoff c a) = (\<forall>c a. tasks s t \<noteq> AwaitBackoff c a)"
    using assms by (metis pc.distinct(5))
  show ?thesis unfolding call_inv_def a b by (cases "tasks s t") simp_all
qed

lemma frame_calls:
  "handler_frame s s' \<Longrightarrow>
     calls (trace s') = calls (trace s) \<and> tasks s' = tasks s \<and> chatHistory s' = chatHistory s"
  by (simp add: handler_frame_def calls_def)

lemma call_frame: "call_inv s \<Longrightarrow> handler_frame s s' \<Longrightarrow> call_inv s'"
  using frame_calls [of s s'] by (simp add: call_inv_def)

lemma call_processMessage:
  assumes o: "\<forall>t'. t' \<noteq> t \<longrightarrow> tasks s t' = Idle"
    and c: "map lastTurn (calls (trace s)) = map Some (filter isUser (chatHistory s))"
    and pf: "pendingFault s = None"
  shows "call_inv (processMessage now e t s)"
proof -
  let ?s' = "processMessage now e t s"
  have o': "\<forall>t'. t' \<noteq> t \<longrightarrow> tasks ?s' t' = Idle"
    using o pf by (simp add: processMessage_def startGenerating_def attemptCall_def emit_def Let_def)
  have u: "isUser \<lparr>role = ''user'', parts = [eventText e]\<rparr>" by (simp add: isUser_def)
  show ?thesis
    unfolding call_inv_single [OF o'] using c u pf
    by (simp add: processMessage_def startGenerating_def attemptCall_def emit_def Let_def)
qed

lemma call_drainQueue:
  assumes q: "quiet t s"
    and c: "map lastTurn (calls (trace s)) = map Some (filter isUser (chatHistory s))"
    and pf: "pendingFault s = None"
  shows "call_inv (drainQueue now t (messageQueue s) s)"
proof (cases "messageQueue s")
  case Nil
  have "\<forall>t'. tasks (s\<lparr>tasks := (tasks s)(t := Idle)\<rparr>) t' = Idle"
    using quiet_others_idle [OF q] by simp
  then show ?thesis using c Nil by (simp add: call_inv_def)
next
  case (Cons e es)
  have g: "genai s" using q by (simp add: quiet_def)
  have "call_inv (processMessage now e t (s\<lparr>messageQueue := es\<rparr>))"
    using quiet_others_idle [OF q] c pf by (intro call_processMessage) simp_all
  then show ?thesis using Cons g by simp
qed

lemma call_finally:
  assumes q: "quiet t s"
    and c: "map lastTurn (calls (trace s)) = map Some (filter isUser (chatHistory s))"
    and pf: "pendingFault s = None"
  shows "call_inv (processMessage_finally now t s)"
proof -
  have "quiet t (s\<lparr>isProcessing := False\<rparr>)" using q by (simp add: quiet_def)
  from call_drainQueue [OF this, of now] c pf show ?thesis
    by (simp add: processMessage_finally_def)
qed

lemma fault_afterRun [simp]:
  "pendingFault (processMessage_afterRun c rs) = pendingFault (snd rs)"
  by (simp add: processMessage_afterRun_def processMessage_catch_def emit_def split: sum.splits)

lemma fault_catch [simp]: "pendingFault (processMessage_catch c s) = pendingFault s"
  by (simp add: processMessage_catch_def emit_def)

lemma fault_frame: "handler_frame s s' \<Longrightarrow> pendingFault s' = pendingFault s"
  by (simp add: handler_frame_def)

lemma call_afterRun:
  assumes "map lastTurn (calls (trace (snd rs))) = map Some (filter isUser (chatHistory (snd rs)))"
  shows "map lastTurn (calls (trace (processMessage_afterRun c rs)))
           = map Some (filter isUser (chatHistory (processMessage_afterRun c rs)))"
  using assms
  by (auto simp: processMessage_afterRun_def processMessage_catch_def emit_def split: sum.splits)

lemma call_busy_eq:
  assumes "call_inv s" "\<forall>t'. t' \<noteq> t \<longrightarrow> tasks s t' = Idle" "\<forall>c. tasks s t \<noteq> AwaitSpacing c"
  shows "map lastTurn (calls (trace s)) = map Some (filter isUser (chatHistory s))"
  using assms(1,3) unfolding call_inv_single [OF assms(2)] by (cases "tasks s t") simp_all

lemma call_eq_frame:
  "map lastTurn (calls (trace s)) = map Some (filter isUser (chatHistory s)) \<Longrightarrow> handler_frame s s' \<Longrightarrow>
   map lastTurn (calls (trace s')) = map Some (filter isUser (chatHistory s'))"
  using frame_calls [of s s'] by simp

lemma call_run_returns:
  assumes i: "agent_inv s" and h: "call_inv s" and t: "tasks s t = AwaitChunk c hh"
    and f: "handler_frame s (snd rs)" and d: "is_done (heap (snd rs) hh)"
    and pf: "pendingFault s = None"
  shows "call_inv (processMessage_finally now t (processMessage_afterRun c rs))"
proof -
  have o: "\<forall>t'. t' \<noteq> t \<longrightarrow> tasks s t' = Idle" using inv_others_idle [OF i, of t] t by simp
  have e: "map lastTurn (calls (trace s)) = map Some (filter isUser (chatHistory s))"
    using call_busy_eq [OF h o] t by simp
  have pf': "pendingFault (processMessage_afterRun c rs) = None"
    using pf fault_frame [OF f] by simp
  from call_finally [OF quiet_processMessage_afterRun [OF quiet_after_run [OF i t f d]]
      call_afterRun [OF call_eq_frame [OF e f]] pf']
  show ?thesis .
qed

lemma call_onUpstreamReply:
  assumes i: "agent_inv s" and h: "call_inv s" and t: "tasks s t = AwaitUpstream c a"
    and r: "\<not> rateLimitReply (now, UpstreamReply t r)"
    and pf: "pendingFault s = None"
  shows "call_inv (onUpstreamReply now r c a t s)"
proof -
  have o: "\<forall>t'. t' \<noteq> t \<longrightarrow> tasks s t' = Idle" using inv_others_idle [OF i, of t] t by simp
  have q: "quiet t s" using inv_quiet_other [OF i, of t] t by simp
  have e: "map lastTurn (calls (trace s)) = map Some (filter isUser (chatHistory s))"
    using call_busy_eq [OF h o] t by simp
  have o1: "\<forall>t'. t' \<noteq> t \<longrightarrow> tasks (startRun c t s) t' = Idle"
    using o by (simp add: startRun_def newHandler_def Let_def)
  have 1: "call_inv (startRun c t s)"
    unfolding call_inv_single [OF o1] using e by (simp add: startRun_def newHandler_def Let_def)
  have e3: "map lastTurn (calls (trace (processMessage_catch c s)))
      = map Some (filter isUser (chatHistory (processMessage_catch c s)))"
    using e by (simp add: processMessage_catch_def emit_def)
  have 3: "call_inv (processMessage_finally now t (processMessage_catch c s))"
    using call_finally [OF quiet_processMessage_catch [OF q] e3] pf by simp
  show ?thesis using 1 3 r by (auto simp: onUpstreamReply_def split: sum.splits)
qed

lemma call_startGenerating:
  assumes "call_inv s" "\<forall>t'. t' \<noteq> t \<longrightarrow> tasks s t' = Idle" "tasks s t = AwaitSpacing c"
    "pendingFault s = None"
  shows "call_inv (startGenerating now c t s)"
proof -
  let ?s' = "startGenerating now c t s"
  have o': "\<forall>t'. t' \<noteq> t \<longrightarrow> tasks ?s' t' = Idle"
    using assms(2,4) by (simp add: startGenerating_def attemptCall_def emit_def Let_def)
  show ?thesis
    using assms(1,3,4) unfolding call_inv_single [OF assms(2)] call_inv_single [OF o']
    by (auto simp: startGenerating_def attemptCall_def emit_def Let_def)
qed

lemma call_handleMessage:
  assumes i: "agent_inv s" and h: "call_inv s" and l: "messageListener s"
    and pf: "pendingFault s = None"
  shows "call_inv (handleMessage now e s)"
proof -
  have g: "genai s" using i by (simp add: agent_inv_def)
  have 1: "call_inv (s\<lparr>messageQueue := messageQueue s @ [e]\<rparr>)"
    using h by (simp add: call_inv_def)
  have 2: "call_inv (processMessage now e (nextTask s) (s\<lparr>nextTask := Suc (nextTask s)\<rparr>))"
    if p: "\<not> isProcessing s"
  proof -
    have idle: "\<forall>t. tasks s t = Idle" using i l p unfolding agent_inv_def by blast
    then have "map lastTurn (calls (trace s)) = map Some (filter isUser (chatHistory s))"
      using h by (simp add: call_inv_def)
    then show ?thesis using idle pf by (intro call_processMessage) simp_all
  qed
  show ?thesis using h 1 2 by (simp add: handleMessage_cases [OF g])
qed

lemma call_step:
  assumes i: "agent_inv s" and h: "call_inv s" and l: "messageListener s"
    and r: "\<not> rateLimitReply (now, inp)" and nd: "inp \<noteq> AgentDispose"
    and pf: "pendingFault s = None" and nf: "\<not> isFault (now, inp)"
  shows "call_inv (step now inp s)"
proof (cases inp)
  case (MessageNew e)
  then show ?thesis using call_handleMessage [OF i h l pf] l by simp
next
  case (IndicatorStop e)
  have "handler_frame s (fold (\<lambda>h. handleStopGenerating h e) (stopListeners s) s)"
    by (rule frame_fold) (rule frame_handleStopGenerating)
  from call_frame [OF h this] show ?thesis using IndicatorStop by simp
next
  case (TimerFired t)
  show ?thesis
  proof (cases "tasks s t")
    case (AwaitSpacing c)
    have o: "\<forall>t'. t' \<noteq> t \<longrightarrow> tasks s t' = Idle"
      using inv_others_idle [OF i, of t] AwaitSpacing by simp
    from call_startGenerating [OF h o AwaitSpacing pf] show ?thesis
      using TimerFired AwaitSpacing by simp
  next
    case (AwaitBackoff c a)
    then show ?thesis using h by (simp add: call_inv_def)
  qed (use h TimerFired in simp_all)
next
  case (UpstreamReply t x)
  show ?thesis
    using h r pf UpstreamReply call_onUpstreamReply [OF i h] by (cases "tasks s t") simp_all
next
  case (StreamChunk t x)
  show ?thesis
  proof (cases "tasks s t")
    case (AwaitChunk c hh)
    show ?thesis
      using StreamChunk AwaitChunk
        call_run_returns [OF i h AwaitChunk frame_run_after_loop done_run_after_loop pf]
        call_frame [OF h frame_run_chunk]
      by simp
  qed (use h StreamChunk in simp_all)
next
  case (StreamEnd t)
  show ?thesis
  proof (cases "tasks s t")
    case (AwaitChunk c hh)
    show ?thesis
      using StreamEnd AwaitChunk
        call_run_returns [OF i h AwaitChunk frame_run_after_loop done_run_after_loop pf]
      by simp
  qed (use h StreamEnd in simp_all)
next
  case (StreamThrow t err)
  show ?thesis
  proof (cases "tasks s t")
    case (AwaitChunk c hh)
    show ?thesis
      using StreamThrow AwaitChunk
        call_run_returns [OF i h AwaitChunk frame_run_catch done_run_catch pf]
      by simp
  qed (use h StreamThrow in simp_all)
next
  case AgentDispose
  then show ?thesis using nd by simp
next
  case (TransportFault w)
  then show ?thesis using nf by simp
qed

lemma uid_frame: "handler_frame s s' \<Longrightarrow> client_user_id s' = client_user_id s"
  by (simp add: handler_frame_def)

lemma uid_processMessage [simp]: "client_user_id (processMessage now e t s) = client_user_id s"
  by (simp add: processMessage_def startGenerating_def rejected_def attemptCall_def emit_def Let_def)

lemma uid_drainQueue [simp]: "client_user_id (drainQueue now t q s) = client_user_id s"
  by (induction q arbitrary: s) simp_all

lemma uid_finally [simp]: "client_user_id (processMessage_finally now t s) = client_user_id s"
  by (simp add: processMessage_finally_def)

lemma uid_afterRun [simp]: "client_user_id (processMessage_afterRun c rs) = client_user_id (snd rs)"
  by (simp add: processMessage_afterRun_def processMessage_catch_def emit_def split: sum.splits)

lemma uid_step: "client_user_id (step now inp s) = client_user_id s"
proof (cases inp)
  case (MessageNew e)
  then show ?thesis by (simp add: handleMessage_def split: option.splits)
next
  case (IndicatorStop e)
  have "handler_frame s (fold (\<lambda>h. handleStopGenerating h e) (stopListeners s) s)"
    by (rule frame_fold) (rule frame_handleStopGenerating)
  from uid_frame [OF this] show ?thesis using IndicatorStop by simp
next
  case (TimerFired t)
  then show ?thesis
    by (cases "tasks s t")
       (simp_all add: startGenerating_def rejected_def attemptCall_def retryLoop_def emit_def
          Let_def uid_frame [OF frame_run_catch] newHandler_def)
next
  case (UpstreamReply t r)
  then show ?thesis
    by (cases "tasks s t")
       (simp_all add: onUpstreamReply_def startRun_def newHandler_def processMessage_catch_def
          emit_def Let_def split: sum.splits)
next
  case (StreamChunk t x)
  then show ?thesis
    by (cases "tasks s t")
       (simp_all add: uid_frame [OF frame_run_after_loop] uid_frame [OF frame_run_chunk])
next
  case (StreamEnd t)
  then show ?thesis
    by (cases "tasks s t") (simp_all add: uid_frame [OF frame_run_after_loop])
next
  case (StreamThrow t err)
  then show ?thesis
    by (cases "tasks s t") (simp_all add: uid_frame [OF frame_run_catch])
next
  case AgentDispose
  have "handler_frame (emit DisconnectUser (s\<lparr>messageListener := False\<rparr>))
     (fold dispose (handlers (emit DisconnectUser (s\<lparr>messageListener := False\<rparr>)))
        (emit DisconnectUser (s\<lparr>messageListener := False\<rparr>)))"
    by (rule frame_fold) (rule frame_dispose)
  from uid_frame [OF this] show ?thesis
    using AgentDispose by (simp add: agentDispose_def Let_def emit_def)
next
  case (TransportFault w)
  then show ?thesis by simp
qed

lemma exec_snoc: "exec (ins @ [(now, inp)]) s = step now inp (exec ins s)"
  by (simp add: exec_def)

lemma acceptedMessages_snoc:
  "acceptedMessages uid (ins @ [x]) = acceptedMessages uid ins @ acceptedOf uid x"
  by (simp add: acceptedMessages_def)

lemma isDispose_iff: "isDispose (now, inp) \<longleftrightarrow> inp = AgentDispose"
  by (cases inp) simp_all

lemma run_invariants:
  "\<not> list_ex isDispose ins \<Longrightarrow> \<not> list_ex isFault ins \<Longrightarrow>
     agent_inv (exec ins (initAgent uid c t0))
     \<and> client_user_id (exec ins (initAgent uid c t0)) = uid
     \<and> history_inv (acceptedMessages uid ins) (exec ins (initAgent uid c t0))
     \<and> (\<not> list_ex rateLimitReply ins \<longrightarrow> call_inv (exec ins (initAgent uid c t0)))"
proof (induction ins rule: rev_induct)
  case Nil
  show ?case
    by (simp add: exec_def inv_initAgent acceptedMessages_def)
       (simp add: initAgent_def history_inv_def call_inv_def spacing_def busy_def)
next
  case (snoc x ins)
  obtain now inp where x: "x = (now, inp)" by (cases x)
  let ?s = "exec ins (initAgent uid c t0)"
  have nd: "\<not> list_ex isDispose ins" "inp \<noteq> AgentDispose"
    using snoc.prems by (simp_all add: x isDispose_iff)
  have nf: "\<not> list_ex isFault ins" "\<not> isFault (now, inp)"
    using snoc.prems by (simp_all add: x)
  note IH = snoc.IH [OF nd(1) nf(1)]
  have i: "agent_inv ?s" and u: "client_user_id ?s = uid"
    and h: "history_inv (acceptedMessages uid ins) ?s"
    using IH by simp_all
  have l: "messageListener ?s" and pf: "pendingFault ?s = None"
    using h by (simp_all add: history_inv_def)
  have 1: "agent_inv (step now inp ?s)" by (rule inv_step [OF i])
  have 2: "client_user_id (step now inp ?s) = uid" using u by (simp add: uid_step)
  have 3: "history_inv (acceptedMessages uid (ins @ [x])) (step now inp ?s)"
    using hist_step [OF i h nd(2) nf(2)] by (simp add: acceptedMessages_snoc x u)
  have 4: "call_inv (step now inp ?s)" if "\<not> list_ex rateLimitReply (ins @ [x])"
  proof -
    have "call_inv ?s" "\<not> rateLimitReply (now, inp)" using IH that by (simp_all add: x)
    then show ?thesis using call_step [OF i _ l _ nd(2) pf nf(2)] by blast
  qed
  show ?case using 1 2 3 4 by (simp add: x exec_snoc)
qed

lemma all_idle:
  assumes "agent_inv s" "filter (\<lambda>t. tasks s t \<noteq> Idle) [0..<nextTask s] = []"
  shows "\<forall>t. tasks s t = Idle"
proof (rule ccontr)
  assume "\<not> (\<forall>t. tasks s t = Idle)"
  then obtain t where t: "tasks s t \<noteq> Idle" by blast
  then have "t < nextTask s" using assms(1) unfolding agent_inv_def by blast
  then have "t \<in> set (filter (\<lambda>t. tasks s t \<noteq> Idle) [0..<nextTask s])" using t by simp
  then show False using assms(2) by simp
qed

text \<open>
  Claim C2, as amended. Take any run without a disposal of the agent and without a
  rejected transport write of the preamble of \<^verbatim>\<open>processMessage\<close>, after which no task is in
  flight, and let \<open>N\<close> be the number of inbound messages it accepted. Then the user turns
  of the history are the accepted messages in the order of their arrival (exactly \<open>N\<close>),
  there are at most \<open>N\<close> model turns and none of them has the empty text, the agent has
  started exactly \<open>N\<close> calls (\<^verbatim>\<open>apiCallCount\<close>), and the queue is empty. If no reply of the
  completion service was classified as a rate limit, the completion service was invoked
  exactly \<open>N\<close> times, the \<open>k\<close>-th time with a history that ends with the \<open>k\<close>-th accepted
  message. When \<^verbatim>\<open>run\<close> has returned a text, \<^verbatim>\<open>processMessage\<close> appends a model turn with
  that text if it is not empty and leaves the history as it is otherwise, as it does when
  \<^verbatim>\<open>run\<close> has thrown.
\<close>

theorem fifo_processing:
  "\<not> list_ex isDispose ins \<Longrightarrow>
   \<not> list_ex isFault ins \<Longrightarrow>
   filter (\<lambda>t. tasks (exec ins (initAgent uid c t0)) t \<noteq> Idle)
     [0..<nextTask (exec ins (initAgent uid c t0))] = [] \<Longrightarrow>
     filter isUser (chatHistory (exec ins (initAgent uid c t0)))
       = map userTurn (acceptedMessages uid ins)
     \<and> length (filter isModel (chatHistory (exec ins (initAgent uid c t0))))
         \<le> length (acceptedMessages uid ins)
     \<and> \<lparr>role = ''model'', parts = [[]]\<rparr> \<notin> set (chatHistory (exec ins (initAgent uid c t0)))
     \<and> apiCallCount (exec ins (initAgent uid c t0)) = length (acceptedMessages uid ins)
     \<and> messageQueue (exec ins (initAgent uid c t0)) = []
     \<and> (\<not> list_ex rateLimitReply ins \<longrightarrow>
          map lastTurn (calls (trace (exec ins (initAgent uid c t0))))
            = map (Some \<circ> userTurn) (acceptedMessages uid ins))
     \<and> chatHistory (processMessage_afterRun cx (returned, s0))
         = (case returned of
              Inr fullText \<Rightarrow>
                if fullText \<noteq> [] then chatHistory s0 @ [\<lparr>role = ''model'', parts = [fullText]\<rparr>]
                else chatHistory s0
            | Inl error \<Rightarrow> chatHistory s0)"
proof -
  assume nd: "\<not> list_ex isDispose ins" and nf: "\<not> list_ex isFault ins"
  let ?s = "exec ins (initAgent uid c t0)"
  assume "filter (\<lambda>t. tasks ?s t \<noteq> Idle) [0..<nextTask ?s] = []"
  note R = run_invariants [OF nd nf, of uid c t0]
  have i: "agent_inv ?s" and h: "history_inv (acceptedMessages uid ins) ?s" using R by simp_all
  have idle: "\<forall>t. tasks ?s t = Idle" by (rule all_idle [OF i]) fact
  have sb: "spacing ?s = 0" "busy ?s = 0" using idle by (simp_all add: spacing_def busy_def)
  have l: "messageListener ?s" using h by (simp add: history_inv_def)
  have p: "\<not> isProcessing ?s" using h sb by (auto simp: history_inv_def)
  have q: "messageQueue ?s = []" using i p unfolding agent_inv_def by blast
  have a: "filter isUser (chatHistory ?s) = map userTurn (acceptedMessages uid ins)"
    and b: "apiCallCount ?s = length (acceptedMessages uid ins)"
    and m: "length (filter isModel (chatHistory ?s)) \<le> length (filter isUser (chatHistory ?s))"
    and e: "\<lparr>role = ''model'', parts = [[]]\<rparr> \<notin> set (chatHistory ?s)"
    using h q sb by (auto simp: history_inv_def)
  have m': "length (filter isModel (chatHistory ?s)) \<le> length (acceptedMessages uid ins)"
    using m unfolding a by simp
  have c: "map lastTurn (calls (trace ?s)) = map (Some \<circ> userTurn) (acceptedMessages uid ins)"
    if "\<not> list_ex rateLimitReply ins"
  proof -
    have "call_inv ?s" using R that by simp
    then have "map lastTurn (calls (trace ?s)) = map Some (filter isUser (chatHistory ?s))"
      using idle by (simp add: call_inv_def)
    then show ?thesis unfolding a by simp
  qed
  have r: "chatHistory (processMessage_afterRun cx (returned, s0))
         = (case returned of
              Inr fullText \<Rightarrow>
                if fullText \<noteq> [] then chatHistory s0 @ [\<lparr>role = ''model'', parts = [fullText]\<rparr>]
                else chatHistory s0
            | Inl error \<Rightarrow> chatHistory s0)"
    by (simp add: processMessage_afterRun_def processMessage_catch_def emit_def
          split: sum.splits)
  show ?thesis using a m' e b q c r by blast
qed

text \<open>
  Claim C2 as stated fails where it counts the calls: in the run with one accepted message
  whose first attempt is rate limited, the completion service is invoked twice.
\<close>

theorem retried_message_is_called_twice:
  "\<not> list_ex isDispose retriedRun
   \<and> \<not> list_ex isFault retriedRun
   \<and> filter (\<lambda>t. tasks (exec retriedRun exampleAgent) t \<noteq> Idle)
        [0..<nextTask (exec retriedRun exampleAgent)] = []
   \<and> length (acceptedMessages (Some ''ai-bot'') retriedRun) = 1
   \<and> length (calls (trace (exec retriedRun exampleAgent))) = 2"
  by code_simp

text \<open>
  The hypothesis on the writes of the preamble is needed. \<^verbatim>\<open>processMessage\<close> sets
  \<^verbatim>\<open>isProcessing\<close> and pushes the user turn before it awaits \<^verbatim>\<open>sendMessage\<close> and the two
  indicator events, and only then enters the \<^verbatim>\<open>try\<close> block whose \<^verbatim>\<open>finally\<close> clears the flag.
  When the transport rejects the \<^verbatim>\<open>sendMessage\<close> of the first message, the call ends with the
  flag set: no task is in flight, every later message is queued and never processed, and
  the completion service is never invoked.
\<close>

lemma rejected_write_leaves_flag_set:
  "filter (\<lambda>t. tasks (exec rejectedRun exampleAgent) t \<noteq> Idle)
        [0..<nextTask (exec rejectedRun exampleAgent)] = []
   \<and> isProcessing (exec rejectedRun exampleAgent)
   \<and> acceptedMessages (Some ''ai-bot'') rejectedRun
       = [exampleMessage ''first'', exampleMessage ''second'', exampleMessage ''third'']
   \<and> chatHistory (exec rejectedRun exampleAgent) = [userTurn (exampleMessage ''first'')]
   \<and> messageQueue (exec rejectedRun exampleAgent)
       = [exampleMessage ''second'', exampleMessage ''third'']
   \<and> apiCallCount (exec rejectedRun exampleAgent) = 0
   \<and> trace (exec rejectedRun exampleAgent) = []"
  by code_simp

text \<open>
  The theorem at the run of two messages that arrive one millisecond apart.
\<close>

theorem fifo_processing_witness:
  "\<not> list_ex isDispose burstRun
   \<and> \<not> list_ex isFault burstRun
   \<and> filter (\<lambda>t. tasks (exec burstRun exampleAgent) t \<noteq> Idle)
        [0..<nextTask (exec burstRun exampleAgent)] = []
   \<and> \<not> list_ex rateLimitReply burstRun
   \<and> filter isUser (chatHistory (exec burstRun exampleAgent))
       = [userTurn (exampleMessage ''first''), userTurn (exampleMessage ''second'')]
   \<and> \<lparr>role = ''model'', parts = [[]]\<rparr> \<notin> set (chatHistory (exec burstRun exampleAgent))
   \<and> apiCallCount (exec burstRun exampleAgent) = 2
   \<and> map lastTurn (calls (trace (exec burstRun exampleAgent)))
       = [Some (userTurn (exampleMessage ''first'')), Some (userTurn (exampleMessage ''second''))]"
proof -
  have d: "\<not> list_ex isDispose burstRun" by code_simp
  have f: "\<not> list_ex isFault burstRun" by code_simp
  have q: "filter (\<lambda>t. tasks (exec burstRun (initAgent (Some ''ai-bot'') ''messaging:c1'' 0)) t \<noteq> Idle)
        [0..<nextTask (exec burstRun (initAgent (Some ''ai-bot'') ''messaging:c1'' 0))] = []"
    by code_simp
  have r: "\<not> list_ex rateLimitReply burstRun" by code_simp
  have a: "acceptedMessages (Some ''ai-bot'') burstRun
      = [exampleMessage ''first'', exampleMessage ''second'']"
    by code_simp
  show ?thesis
    using fifo_processing [OF d f q] d f q r a by (simp add: exampleAgent_def)
qed

section \<open>The stop signal, the variant without a queue, and errors of the stream\<close>

text \<open>
  Claim C4 at a concrete run. A stop signal for the message of the handler that is
  streaming marks the handler done, writes the text accumulated so far and emits the
  indicator-clear event; but the call of \<^verbatim>\<open>dispose\<close> that ends \<^verbatim>\<open>handleStopGenerating\<close>
  finds \<^verbatim>\<open>is_done\<close> already set and returns at once, so the handler stays among the
  agent's handlers and among the stop listeners, also after \<^verbatim>\<open>run\<close> has returned and
  the processing of the message is over. Without the stop signal the same run ends with
  both lists empty.
\<close>

theorem stop_signal_leaves_handler_registered:
  "\<not> is_done (heap (exec (butlast stoppedRun) exampleAgent) 0)
   \<and> message_id (exampleStop 0) = Some (mid (message (heap (exec (butlast stoppedRun) exampleAgent) 0)))
   \<and> is_done (heap (exec stoppedRun exampleAgent) 0)
   \<and> new_effects (exec (butlast stoppedRun) exampleAgent) (exec stoppedRun exampleAgent)
       = [PartialUpdateMessage 0 ''Hi'', SendEvent (IndicatorClear ''messaging:c1'' 0)]
   \<and> handlers (exec stoppedRun exampleAgent) = [0]
   \<and> stopListeners (exec stoppedRun exampleAgent) = [0]
   \<and> tasks (exec (stoppedRun @ [(10400, StreamEnd 0)]) exampleAgent) 0 = Idle
   \<and> handlers (exec (stoppedRun @ [(10400, StreamEnd 0)]) exampleAgent) = [0]
   \<and> stopListeners (exec (stoppedRun @ [(10400, StreamEnd 0)]) exampleAgent) = [0]
   \<and> handlers (exec (butlast stoppedRun @ [(10400, StreamEnd 0)]) exampleAgent) = []
   \<and> stopListeners (exec (butlast stoppedRun @ [(10400, StreamEnd 0)]) exampleAgent) = []"
  by code_simp

text \<open>A handler that was stopped stays in the agent's list next to the handler of the next
  message; only the latter is live.\<close>

lemma stopped_handler_stays_listed:
  "handlers (exec (stoppedRun @ [(10400, StreamEnd 0), (20000, MessageNew (exampleMessage ''second'')),
              (20100, UpstreamReply 1 (Inr ()))]) exampleAgent) = [0, 1]
   \<and> filter (\<lambda>h. \<not> is_done (heap (exec (stoppedRun @ [(10400, StreamEnd 0),
              (20000, MessageNew (exampleMessage ''second'')),
              (20100, UpstreamReply 1 (Inr ()))]) exampleAgent) h)) [0, 1] = [1]"
  by code_simp

text \<open>A stop signal for another message changes nothing; one for the handler's message
  leaves both registrations in place.\<close>

lemma stop_for_other_message_ignored:
  "message_id ev \<noteq> Some (mid (message (heap s h))) \<Longrightarrow> handleStopGenerating h ev s = s"
  by (simp add: handleStopGenerating_def)

lemma stop_keeps_registration:
  "\<not> is_done (heap s h) \<Longrightarrow> message_id ev = Some (mid (message (heap s h))) \<Longrightarrow>
     handlers (handleStopGenerating h ev s) = handlers s
     \<and> stopListeners (handleStopGenerating h ev s) = stopListeners s
     \<and> is_done (heap (handleStopGenerating h ev s) h)"
  by (simp add: handler_defs Let_def)

text \<open>
  Claim C9. In the variant without a queue \<^verbatim>\<open>handleMessage\<close> handles every accepted
  message at once, whatever else is in flight: it appends the user turn to the history,
  creates the target message, emits the two indicators and calls the completion service
  with the history as it then is, in a task of its own. Its state has no processing flag
  and no queue.
\<close>

theorem handleMessage1_always_starts_a_call:
  "genai s \<Longrightarrow> accepted (client_user_id s) e \<Longrightarrow>
     chatHistory (handleMessage1 now e s) = chatHistory s @ [userTurn e]
     \<and> new_effects s (handleMessage1 now e s) =
         [SendMessage (nextMessageId s),
          SendEvent (IndicatorUpdate AI_STATE_THINKING (channel_cid s) (nextMessageId s)),
          SendEvent (IndicatorUpdate AI_STATE_GENERATING (channel_cid s) (nextMessageId s)),
          GenerateContentStream (chatHistory s @ [userTurn e]) (eventContext e)]
     \<and> tasks (handleMessage1 now e s) =
         (tasks s)(nextTask s :=
            AwaitUpstream \<lparr>channelMessage = \<lparr>cid = channel_cid s, mid = nextMessageId s\<rparr>,
                           writingContext = eventContext e\<rparr> 0)
     \<and> nextTask (handleMessage1 now e s) = Suc (nextTask s)"
  by (auto simp: handleMessage1_def attemptCall1_def accepted_def userTurn_def eventText_def
        emit_def new_effects_def Let_def split: option.splits)

text \<open>
  The theorem at a second message that arrives while the call for the first is in flight:
  both tasks are then in flight, on one history.
\<close>

theorem handleMessage1_always_starts_a_call_witness:
  "genai (exec1 [(10000, MessageNew (exampleMessage ''first''))] exampleAgent1)
   \<and> accepted (client_user_id (exec1 [(10000, MessageNew (exampleMessage ''first''))] exampleAgent1))
        (exampleMessage ''second'')
   \<and> tasks (exec1 [(10000, MessageNew (exampleMessage ''first''))] exampleAgent1) 0 \<noteq> Idle
   \<and> chatHistory (handleMessage1 10001 (exampleMessage ''second'')
         (exec1 [(10000, MessageNew (exampleMessage ''first''))] exampleAgent1))
       = [userTurn (exampleMessage ''first''), userTurn (exampleMessage ''second'')]
   \<and> tasks (handleMessage1 10001 (exampleMessage ''second'')
         (exec1 [(10000, MessageNew (exampleMessage ''first''))] exampleAgent1)) 0 \<noteq> Idle
   \<and> tasks (handleMessage1 10001 (exampleMessage ''second'')
         (exec1 [(10000, MessageNew (exampleMessage ''first''))] exampleAgent1)) 1 \<noteq> Idle"
proof -
  let ?s = "exec1 [(10000, MessageNew (exampleMessage ''first''))] exampleAgent1"
  have g: "genai ?s" by code_simp
  have a: "accepted (client_user_id ?s) (exampleMessage ''second'')" by code_simp
  have t: "tasks ?s 0 \<noteq> Idle" "nextTask ?s = 1" by code_simp+
  have h: "chatHistory ?s = [userTurn (exampleMessage ''first'')]" by code_simp
  show ?thesis
    using handleMessage1_always_starts_a_call [OF g a, of 10001] g a t h by simp
qed

text \<open>
  In the run of the example the second call carries both user turns, and after both
  replies two handlers are live at once.
\<close>

theorem overlapping_calls:
  "calls (trace (exec1 overlapRun exampleAgent1))
     = [[userTurn (exampleMessage ''first'')],
        [userTurn (exampleMessage ''first''), userTurn (exampleMessage ''second'')]]
   \<and> filter (\<lambda>h. \<not> is_done (heap (exec1 overlapRun exampleAgent1) h))
        (handlers (exec1 overlapRun exampleAgent1)) = [0, 1]"
  by code_simp

lemma writesTo_append [simp]: "writesTo m (xs @ ys) = writesTo m xs @ writesTo m ys"
  by (simp add: writesTo_def)

lemma writesTo_Nil [simp]: "writesTo m [] = []"
  by (simp add: writesTo_def)

lemma writesTo_Cons [simp]: "writesTo m (e # es) = writeTo m e @ writesTo m es"
  by (simp add: writesTo_def)

lemma processMessage_appends:
  "chatHistory (processMessage now e t s) = chatHistory s @ [userTurn e]
   \<and> writesTo m (trace (processMessage now e t s)) = writesTo m (trace s)"
  by (simp add: processMessage_def startGenerating_def rejected_def attemptCall_def emit_def
        Let_def userTurn_def)

lemma drainQueue_appends:
  "(\<exists>more. chatHistory (drainQueue now t q s) = chatHistory s @ more)
   \<and> writesTo m (trace (drainQueue now t q s)) = writesTo m (trace s)"
proof (induction q arbitrary: s)
  case Nil
  then show ?case by simp
next
  case (Cons e q)
  show ?case
    using Cons.IH [of "s\<lparr>messageQueue := q\<rparr>"] processMessage_appends [of now e t "s\<lparr>messageQueue := q\<rparr>" m]
    by (cases "genai s") simp_all
qed

lemma finally_appends:
  "(\<exists>more. chatHistory (processMessage_finally now t s) = chatHistory s @ more)
   \<and> writesTo m (trace (processMessage_finally now t s)) = writesTo m (trace s)"
  using drainQueue_appends [of now t "messageQueue s" "s\<lparr>isProcessing := False\<rparr>" m]
  by (simp add: processMessage_finally_def)

text \<open>
  Claim C10. When the stream throws while the handler holds a non-empty text and is not
  done, \<^verbatim>\<open>run\<close> returns that partial text, the agent appends it to the history as a
  model turn, and the last text written to the message is the description of the error (or
  the generic text): the history records the partial answer while the message shows the
  error.
\<close>

theorem stream_error_keeps_partial_text_in_history:
  "tasks s t = AwaitChunk c h \<Longrightarrow> \<not> is_done (heap s h) \<Longrightarrow> message_text (heap s h) \<noteq> [] \<Longrightarrow>
     fst (run_catch h err s) = Inr (message_text (heap s h))
     \<and> take (Suc (length (chatHistory s))) (chatHistory (step now (StreamThrow t err) s))
         = chatHistory s @ [\<lparr>role = ''model'', parts = [message_text (heap s h)]\<rparr>]
     \<and> writesTo (mid (message (heap s h))) (trace (step now (StreamThrow t err) s))
         = writesTo (mid (message (heap s h))) (trace s)
             @ [if err_toString err = [] then ''Error generating the message'' else err_toString err]"
proof -
  assume t: "tasks s t = AwaitChunk c h" and nd: "\<not> is_done (heap s h)"
    and tx: "message_text (heap s h) \<noteq> []"
  let ?m = "mid (message (heap s h))"
  let ?a = "processMessage_afterRun c (run_catch h err s)"
  have r: "fst (run_catch h err s) = Inr (message_text (heap s h))"
    using nd by (simp add: handler_defs Let_def)
  have ah: "chatHistory ?a = chatHistory s @ [\<lparr>role = ''model'', parts = [message_text (heap s h)]\<rparr>]"
    using nd tx by (simp add: processMessage_afterRun_def handler_defs Let_def)
  have aw: "writesTo ?m (trace ?a) = writesTo ?m (trace s)
             @ [if err_toString err = [] then ''Error generating the message'' else err_toString err]"
    using nd tx by (simp add: processMessage_afterRun_def handler_defs Let_def)
  have st: "step now (StreamThrow t err) s = processMessage_finally now t ?a"
    using t by simp
  obtain more where more: "chatHistory (processMessage_finally now t ?a) = chatHistory ?a @ more"
    using finally_appends [of now t ?a ?m] by blast
  have fw: "writesTo ?m (trace (processMessage_finally now t ?a)) = writesTo ?m (trace ?a)"
    using finally_appends [of now t ?a ?m] by blast
  have "take (Suc (length (chatHistory s))) (chatHistory (step now (StreamThrow t err) s))
         = chatHistory s @ [\<lparr>role = ''model'', parts = [message_text (heap s h)]\<rparr>]"
    unfolding st more ah by simp
  then show ?thesis using r fw aw st by simp
qed

text \<open>
  The theorem at a run whose stream throws after the chunk \<open>Partial\<close>.
\<close>

theorem stream_error_keeps_partial_text_in_history_witness:
  "tasks (exec brokenRun exampleAgent) 0
     = AwaitChunk \<lparr>channelMessage = \<lparr>cid = ''messaging:c1'', mid = 0\<rparr>, writingContext = None\<rparr> 0
   \<and> \<not> is_done (heap (exec brokenRun exampleAgent) 0)
   \<and> message_text (heap (exec brokenRun exampleAgent) 0) = ''Partial''
   \<and> take 2 (chatHistory (step 10300 (StreamThrow 0 streamError) (exec brokenRun exampleAgent)))
       = [userTurn (exampleMessage ''first''), \<lparr>role = ''model'', parts = [''Partial'']\<rparr>]
   \<and> writesTo 0 (trace (step 10300 (StreamThrow 0 streamError) (exec brokenRun exampleAgent)))
       = [''Partial'', ''Error: socket closed'']"
proof -
  let ?s = "exec brokenRun exampleAgent"
  have t: "tasks ?s 0
     = AwaitChunk \<lparr>channelMessage = \<lparr>cid = ''messaging:c1'', mid = 0\<rparr>, writingContext = None\<rparr> 0"
    by code_simp
  have nd: "\<not> is_done (heap ?s 0)" by code_simp
  have tx: "message_text (heap ?s 0) = ''Partial''" by code_simp
  have tx': "message_text (heap ?s 0) \<noteq> []" by (simp add: tx)
  have f: "chatHistory ?s = [userTurn (exampleMessage ''first'')]"
    "writesTo 0 (trace ?s) = [''Partial'']" "mid (message (heap ?s 0)) = 0"
    "err_toString streamError = ''Error: socket closed''"
    by code_simp+
  show ?thesis
    using stream_error_keeps_partial_text_in_history [OF t nd tx', of streamError 10300] t nd tx f
    by (simp add: numeral_2_eq_2)
qed

end
